theory Spec2Isabelle
  imports Complex_Main "HOL-Library.AList"
begin

section \<open>Super-Zhot: the tournament relation and the circular diagram\<close>

text \<open>
  A shallow embedding of \<^verbatim>\<open>super-zhot.py\<close>. Python lists are HOL lists, the
  insertion-ordered dictionary \<^verbatim>\<open>Move.beats\<close> is an association list updated with
  \<open>AList.update\<close> (an existing key keeps its position and gets the new value, a new key
  is appended: what \<^verbatim>\<open>d[k] = v\<close> does), raised exceptions and \<^verbatim>\<open>exit()\<close> are the left
  summand of a result type, and what \<^verbatim>\<open>print\<close> writes is kept in an explicit list.
  Indices and counts are never negative in the program and are natural numbers.
\<close>

subsection \<open>Errors\<close>

datatype error = IndexError | ZeroDivisionError | NotOddError | InsufficientMovesError

subsection \<open>Python helpers\<close>

text \<open>\<^verbatim>\<open>range(start, stop, step)\<close> for a positive step (the program only uses step 2).\<close>

function py_range :: "nat \<Rightarrow> nat \<Rightarrow> nat \<Rightarrow> nat list" where
  "py_range start stop step =
     (if step = 0 \<or> stop \<le> start then [] else start # py_range (start + step) stop step)"
  by pat_completeness auto
termination
  by (relation "measure (\<lambda>(start, stop, step). stop - start)") auto

declare py_range.simps [simp del]

text \<open>
  Strings are lists of bytes, the UTF-8 encoding of Python's strings. \<^verbatim>\<open>len(s)\<close> counts
  code points: the bytes that are not continuation bytes (\<open>0x80\<close> to \<open>0xBF\<close>).
\<close>

definition py_len :: "string \<Rightarrow> nat" where
  "py_len s = length (filter (\<lambda>c. (of_char c :: nat) div 64 \<noteq> 2) s)"

text \<open>
  \<^verbatim>\<open>str.strip()\<close> drops leading and trailing whitespace: the code points for which
  \<^verbatim>\<open>str.isspace\<close> holds, listed here by their UTF-8 encodings (U+0009 to U+000D, U+001C to
  U+0020, U+0085, U+00A0, U+1680, U+2000 to U+200A, U+2028, U+2029, U+202F, U+205F,
  U+3000).
\<close>

definition whitespace :: "string list" where
  "whitespace =
     map (\<lambda>c. [c]) [CHR 0x09, CHR 0x0A, CHR 0x0B, CHR 0x0C, CHR 0x0D,
                    CHR 0x1C, CHR 0x1D, CHR 0x1E, CHR 0x1F, CHR 0x20]
     @ [[CHR 0xC2, CHR 0x85], [CHR 0xC2, CHR 0xA0], [CHR 0xE1, CHR 0x9A, CHR 0x80]]
     @ map (\<lambda>c. [CHR 0xE2, CHR 0x80, c])
         [CHR 0x80, CHR 0x81, CHR 0x82, CHR 0x83, CHR 0x84, CHR 0x85, CHR 0x86, CHR 0x87,
          CHR 0x88, CHR 0x89, CHR 0x8A, CHR 0xA8, CHR 0xA9, CHR 0xAF]
     @ [[CHR 0xE2, CHR 0x81, CHR 0x9F], [CHR 0xE3, CHR 0x80, CHR 0x80]]"

text \<open>Dropping, from the front, every leading occurrence of one of the given sequences.\<close>

function lstrip_by :: "string list \<Rightarrow> string \<Rightarrow> string" where
  "lstrip_by seqs s =
     (case find (\<lambda>w. w \<noteq> [] \<and> take (length w) s = w) seqs of
        None \<Rightarrow> s
      | Some w \<Rightarrow> lstrip_by seqs (drop (length w) s))"
  by pat_completeness auto
termination
proof (relation "measure (\<lambda>(seqs, s). length s)")
  show "wf (measure (\<lambda>(seqs, s). length s))" by simp
next
  fix seqs :: "string list" and s w :: string
  assume "find (\<lambda>w. w \<noteq> [] \<and> take (length w) s = w) seqs = Some w"
  then have "w \<noteq> []" and "take (length w) s = w" by (auto simp: find_Some_iff)
  then have "s \<noteq> []" by auto
  with \<open>w \<noteq> []\<close> show "((seqs, drop (length w) s), (seqs, s)) \<in> measure (\<lambda>(seqs, s). length s)"
    by simp
qed

declare lstrip_by.simps [simp del]

definition strip :: "string \<Rightarrow> string" where
  "strip s = rev (lstrip_by (map rev whitespace) (rev (lstrip_by whitespace s)))"

text \<open>\<^verbatim>\<open>sep.join(xs)\<close>.\<close>

fun join :: "string \<Rightarrow> string list \<Rightarrow> string" where
  "join sep [] = []"
| "join sep [x] = x"
| "join sep (x # y # ys) = x @ sep @ join sep (y # ys)"

subsection \<open>Move\<close>

record move_obj =
  move :: string
  beats :: "(string \<times> string) list"
  num :: nat
  beats_num :: "nat list"

definition generic_verb :: string where
  "generic_verb = ''beats''"

text \<open>
  The loop of \<^verbatim>\<open>Move.__init__\<close> over \<^verbatim>\<open>range(1, total, 2)\<close>. Each round pops the next
  verb from \<open>info\<close> (the bare \<^verbatim>\<open>except\<close> turns the IndexError of an empty list into the
  generic verb), looks the loser up by index and stores the pair in the dictionary. The
  index \<open>(number + offset) mod total\<close> is in range whenever the loop body runs, because the
  range is empty unless \<open>total \<ge> 2\<close>.
\<close>

fun beats_loop ::
  "nat \<Rightarrow> string list \<Rightarrow> nat list \<Rightarrow> string list \<Rightarrow> (string \<times> string) list
    \<Rightarrow> (string \<times> string) list" where
  "beats_loop number move_names [] info acc = acc"
| "beats_loop number move_names (offset # offsets) info acc =
     (let verb = (case info of [] \<Rightarrow> generic_verb | v # vs \<Rightarrow> strip v);
          info' = (case info of [] \<Rightarrow> [] | v # vs \<Rightarrow> vs);
          loser = move_names ! ((number + offset) mod length move_names)
      in beats_loop number move_names offsets info' (AList.update loser verb acc))"

text \<open>The list comprehension that fills \<^verbatim>\<open>beats_num\<close>; \<open>n\<close> is the source's \<^verbatim>\<open>total\<close>.\<close>

definition beats_num_list :: "nat \<Rightarrow> nat \<Rightarrow> nat list" where
  "beats_num_list number n =
     map (\<lambda>i. (i + number) mod n) (filter (\<lambda>i. i mod 2 \<noteq> 0) [0..<n])"

text \<open>\<^verbatim>\<open>Move(number, info, move_names)\<close>; the first \<^verbatim>\<open>info.pop(0)\<close> raises on an empty row.\<close>

definition Move_init :: "nat \<Rightarrow> string list \<Rightarrow> string list \<Rightarrow> error + move_obj" where
  "Move_init number info move_names =
     (case info of
        [] \<Rightarrow> Inl IndexError
      | name # rest \<Rightarrow>
          (let n = length move_names
           in Inr \<lparr> move = name,
                    beats = beats_loop number move_names (py_range 1 n 2) rest [],
                    num = number,
                    beats_num = beats_num_list number n \<rparr>))"

subsection \<open>Game\<close>

record score =
  human :: int
  ai :: int

record game =
  move_objs :: "move_obj list"
  game_score :: score
  rounds :: nat
  move_names_str :: string

text \<open>
  \<^verbatim>\<open>complete_initialisation\<close>: the score, the round counter and the comma-separated move
  names. The help text \<^verbatim>\<open>self.rules\<close> is presentation only and is left out.
\<close>

definition complete_initialisation :: "move_obj list \<Rightarrow> string list \<Rightarrow> game" where
  "complete_initialisation objs move_names =
     \<lparr> move_objs = objs,
       game_score = \<lparr> human = 0, ai = 0 \<rparr>,
       rounds = 0,
       move_names_str = join '', '' move_names \<rparr>"

text \<open>The \<^verbatim>\<open>enumerate\<close> loop that turns the rows into Move objects.\<close>

fun build_moves :: "nat \<Rightarrow> string list list \<Rightarrow> string list \<Rightarrow> error + move_obj list" where
  "build_moves i [] move_names = Inr []"
| "build_moves i (move_info # rest) move_names =
     (case Move_init i move_info move_names of
        Inl e \<Rightarrow> Inl e
      | Inr new \<Rightarrow>
          (case build_moves (Suc i) rest move_names of
             Inl e \<Rightarrow> Inl e
           | Inr objs \<Rightarrow> Inr (new # objs)))"

text \<open>
  \<^verbatim>\<open>Game(filename)\<close>, from the rows the CSV reader delivers (reading the file is outside
  the model). The handlers of NotOddError and InsufficientMovesError print and call
  \<^verbatim>\<open>exit()\<close>: no Game object exists afterwards, which is the \<open>Inl\<close> result.
\<close>

definition Game_init :: "string list list \<Rightarrow> error + game" where
  "Game_init rows =
     (let moves_from_file = filter (\<lambda>row. length row \<noteq> 0) rows
      in if length moves_from_file mod 2 = 0 then Inl NotOddError
         else if length moves_from_file < 3 then Inl InsufficientMovesError
         else
           (let move_names = map (\<lambda>item. item ! 0) moves_from_file
            in case build_moves 0 moves_from_file move_names of
                 Inl e \<Rightarrow> Inl e
               | Inr objs \<Rightarrow> Inr (complete_initialisation objs move_names)))"

text \<open>\<^verbatim>\<open>DefaultGame()\<close>: the three classic moves.\<close>

definition DefaultGame_init :: "error + game" where
  "DefaultGame_init =
     (let move_names = [''Scissors'', ''Paper'', ''Rock'']
      in case Move_init 0 [''Scissors'', ''cuts''] move_names of
           Inl e \<Rightarrow> Inl e
         | Inr scissors \<Rightarrow>
        (case Move_init 1 [''Paper'', ''wraps''] move_names of
           Inl e \<Rightarrow> Inl e
         | Inr paper \<Rightarrow>
        (case Move_init 2 [''Rock'', ''blunts''] move_names of
           Inl e \<Rightarrow> Inl e
         | Inr rock \<Rightarrow>
             Inr (complete_initialisation [scissors, paper, rock] move_names))))"

text \<open>The index-keyed relation the diagram draws: \<open>i\<close> beats \<open>j\<close>.\<close>

definition beats_idx :: "game \<Rightarrow> nat \<Rightarrow> nat \<Rightarrow> bool" where
  "beats_idx g i j = (j \<in> set (beats_num (move_objs g ! i)))"

subsection \<open>Numbers of the diagram\<close>

text \<open>
  The geometry of the layout is modelled over the real numbers: there the arithmetic,
  \<^verbatim>\<open>math.sin\<close> and \<^verbatim>\<open>math.cos\<close> are exact.

  \<^verbatim>\<open>round(v)\<close> rounds to the nearest integer and a tie to the even neighbour;
  \<^verbatim>\<open>round(v, 2)\<close> does the same at the second decimal place.
\<close>

definition py_round :: "real \<Rightarrow> int" where
  "py_round v =
     (let f = \<lfloor>v\<rfloor>; d = v - of_int f
      in if d < 1 / 2 then f else if 1 / 2 < d then f + 1 else if even f then f else f + 1)"

definition rounded :: "real \<Rightarrow> real" where
  "rounded v = of_int (py_round (v * 100)) / 100"

text \<open>The float remainder \<^verbatim>\<open>a % b\<close> for a positive \<open>b\<close>, and \<^verbatim>\<open>math.radians\<close>.\<close>

definition fmod :: "real \<Rightarrow> real \<Rightarrow> real" where
  "fmod a b = a - b * of_int \<lfloor>a / b\<rfloor>"

definition radians :: "real \<Rightarrow> real" where
  "radians d = d * pi / 180"

text \<open>
  Where the last bit of a double decides what the program does, the double is modelled:
  \<open>fl v\<close> is the IEEE binary64 number nearest to \<open>v\<close>, a tie going to the even mantissa (53
  bits; the magnitudes of this program are far from overflow and from the subnormal
  range). A float operation of Python is \<open>fl\<close> of the exact result.
\<close>

definition fl :: "real \<Rightarrow> real" where
  "fl v =
     (if v = 0 then 0
      else (let u = 2 powr (real_of_int \<lfloor>log 2 \<bar>v\<bar>\<rfloor> - 52)
            in real_of_int (py_round (v / u)) * u))"

text \<open>
  \<^verbatim>\<open>matplotlib.mlab.frange(xini, xfin, delta)\<close> is a library function, not part of the
  repository. It is modelled after the library's own definition with the default
  \<^verbatim>\<open>closed=1\<close>: \<^verbatim>\<open>npts = int(round((xfin - xini) / delta)) + 1\<close> and the result is
  \<^verbatim>\<open>arange(npts) * delta + xini\<close>, so the first element is \<open>xini\<close> and the end point is
  included.
\<close>

definition frange :: "real \<Rightarrow> real \<Rightarrow> real \<Rightarrow> real list" where
  "frange xini xfin delta =
     (let npts = py_round ((xfin - xini) / delta) + 1
      in map (\<lambda>k. real k * delta + xini) [0..<nat npts])"

subsection \<open>Point\<close>

text \<open>
  \<^verbatim>\<open>Point(x, y)\<close> rounds both coordinates. The attributes \<^verbatim>\<open>dict\<close> and \<^verbatim>\<open>tuple\<close> hold the
  same two numbers again, so the record has the two coordinates only (named \<open>point_x\<close> and
  \<open>point_y\<close>, since \<open>x\<close> and \<open>y\<close> would be global constants).
\<close>

record point =
  point_x :: real
  point_y :: real

definition Point_init :: "real \<Rightarrow> real \<Rightarrow> point" where
  "Point_init a b = \<lparr> point_x = rounded a, point_y = rounded b \<rparr>"

text \<open>A coordinate with at most two decimal places: a whole number of hundredths.\<close>

definition two_dp :: "real \<Rightarrow> bool" where
  "two_dp v = (of_int \<lfloor>v * 100\<rfloor> = v * 100)"

subsection \<open>Diagram: the layout\<close>

definition FULL_CIRCLE :: int where "FULL_CIRCLE = 360"
definition DIAGRAM_SIZE :: int where "DIAGRAM_SIZE = 1000"
definition NORTH :: int where "NORTH = 0"
definition EAST :: int where "EAST = 90"
definition SOUTH :: int where "SOUTH = 180"
definition WEST :: int where "WEST = 270"

definition DIAGRAM_RADIUS :: int where
  "DIAGRAM_RADIUS = py_round (real_of_int DIAGRAM_SIZE / 2)"

text \<open>\<open>n\<close> is \<^verbatim>\<open>len(move_objs)\<close>, which is positive where these are evaluated.\<close>

definition CIRCLE_RADIUS :: "nat \<Rightarrow> int" where
  "CIRCLE_RADIUS n = py_round (real_of_int DIAGRAM_RADIUS / real n)"

definition angles :: "nat \<Rightarrow> real list" where
  "angles n =
     (let angle_slice = real_of_int FULL_CIRCLE / real n
      in frange angle_slice (real_of_int FULL_CIRCLE) angle_slice)"

text \<open>
  The body of the loop over the angles, in two steps: \<open>point_args\<close> is the pair of
  arguments that the chosen branch passes to \<^verbatim>\<open>Point\<close>, \<open>move_point\<close> the point made from
  them. \<open>cr\<close> is \<^verbatim>\<open>CIRCLE_RADIUS\<close>.
\<close>

definition point_args :: "int \<Rightarrow> real \<Rightarrow> real \<times> real" where
  "point_args cr angle =
     (let hypotenuse = real_of_int (DIAGRAM_RADIUS - cr)
      in if angle = real_of_int NORTH \<or> angle = real_of_int FULL_CIRCLE
           then (real_of_int DIAGRAM_RADIUS, real_of_int cr)
         else if angle = real_of_int EAST
           then (real_of_int (DIAGRAM_SIZE - cr), real_of_int DIAGRAM_RADIUS)
         else if angle = real_of_int SOUTH
           then (real_of_int DIAGRAM_RADIUS, real_of_int (DIAGRAM_SIZE - cr))
         else if angle = real_of_int WEST
           then (real_of_int cr, real_of_int DIAGRAM_RADIUS)
         else
           (let rad = radians (fmod angle (real_of_int EAST));
                opposite = hypotenuse * sin rad;
                adjacent = hypotenuse * cos rad
            in if angle < real_of_int EAST
                 then (real_of_int DIAGRAM_RADIUS + opposite, real_of_int DIAGRAM_RADIUS - adjacent)
               else if angle < real_of_int SOUTH
                 then (real_of_int DIAGRAM_RADIUS + adjacent, real_of_int DIAGRAM_RADIUS + opposite)
               else if angle < real_of_int WEST
                 then (real_of_int DIAGRAM_RADIUS - opposite, real_of_int DIAGRAM_RADIUS + adjacent)
               else (real_of_int DIAGRAM_RADIUS - adjacent, real_of_int DIAGRAM_RADIUS - opposite)))"

definition move_point :: "int \<Rightarrow> real \<Rightarrow> point" where
  "move_point cr angle = (case point_args cr angle of (a, b) \<Rightarrow> Point_init a b)"

text \<open>The list \<^verbatim>\<open>move_points\<close> for \<open>n\<close> moves.\<close>

definition layout :: "nat \<Rightarrow> point list" where
  "layout n = map (move_point (CIRCLE_RADIUS n)) (angles n)"

text \<open>
  The same list in double precision. \<^verbatim>\<open>360 / len(move_objs)\<close>, the subtraction and the
  division in \<^verbatim>\<open>frange\<close>, and the product and the sum of
  \<^verbatim>\<open>arange(npts) * delta + xini\<close> are each rounded to a double. The statements about counts
  and about the shape of the drawing are made on the exact list \<open>angles\<close>; \<open>angles64\<close> is
  for the equality tests of the cardinal branches, which the last bit of an angle decides.
  Sine and cosine stay those of the real numbers.
\<close>

definition frange64 :: "real \<Rightarrow> real \<Rightarrow> real \<Rightarrow> real list" where
  "frange64 xini xfin delta =
     (let npts = py_round (fl (fl (xfin - xini) / delta)) + 1
      in map (\<lambda>k. fl (fl (real k * delta) + xini)) [0..<nat npts])"

definition angles64 :: "nat \<Rightarrow> real list" where
  "angles64 n =
     (let angle_slice = fl (real_of_int FULL_CIRCLE / real n)
      in frange64 angle_slice (real_of_int FULL_CIRCLE) angle_slice)"

definition layout64 :: "nat \<Rightarrow> point list" where
  "layout64 n = map (move_point (CIRCLE_RADIUS n)) (angles64 n)"

subsection \<open>Diagram: the drawing\<close>

text \<open>
  The drawing library is outside the model; what is handed to it is kept as data.
  \<open>Px v\<close> stands for the string \<^verbatim>\<open>str(v) + "px"\<close>. The constructors list the keyword
  arguments in the order of the source.
\<close>

datatype px = Px real

datatype element =
    Rect "real \<times> real" "px \<times> px" string string string
  | Circle "px \<times> px" px px string string
  | Line point point string
  | Text string "real \<times> real" string px string
  | Style real

text \<open>What is printed: a message, or the representation of a Move object.\<close>

datatype printed = Say string | Show_move move_obj

record diagram =
  move_points :: "point list"
  elements :: "element list"
  defs :: "element list"

definition max_text_len :: nat where
  "max_text_len = 12"

text \<open>
  The sizes of the legend are computed in double precision. A coordinate of a point is the
  decimal that \<^verbatim>\<open>round(v, 2)\<close> produced; the double that stands for it in the program is
  \<open>fl\<close> of it.
\<close>

definition text_size :: "int \<Rightarrow> real" where
  "text_size cr = fl (real_of_int cr / 3)"

text \<open>The lines from one point to the points of the moves it beats.\<close>

fun draw_lines :: "point list \<Rightarrow> point \<Rightarrow> nat list \<Rightarrow> error + element list" where
  "draw_lines pts p [] = Inr []"
| "draw_lines pts p (target # targets) =
     (if length pts \<le> target then Inl IndexError
      else case draw_lines pts p targets of
             Inl e \<Rightarrow> Inl e
           | Inr ls \<Rightarrow> Inr (Line p (pts ! target) ''black'' # ls))"

text \<open>The small circle of a move and its legend.\<close>

definition move_circle :: "int \<Rightarrow> point \<Rightarrow> element" where
  "move_circle cr p =
     Circle (Px (rounded (fl (point_x p))), Px (rounded (fl (point_y p))))
       (Px (real_of_int cr)) (Px 2) ''grey'' ''white''"

definition text_length_px :: "int \<Rightarrow> string \<Rightarrow> real" where
  "text_length_px cr name =
     (let text_length = (if py_len name > max_text_len then max_text_len else py_len name);
          coefficient = fl (real text_length / real max_text_len)
      in rounded (fl (fl (fl (19 / 10) * real_of_int cr) * coefficient)))"

definition downshifted :: "int \<Rightarrow> point \<Rightarrow> real \<times> real" where
  "downshifted cr p =
     (rounded (fl (point_x p)), rounded (fl (fl (point_y p) + fl (text_size cr / 4))))"

definition move_text :: "int \<Rightarrow> move_obj \<Rightarrow> point \<Rightarrow> element" where
  "move_text cr obj p =
     Text (move obj) (downshifted cr p) ''middle'' (Px (text_length_px cr (move obj)))
       ''spacingAndGlyphs''"

text \<open>
  The loop over \<^verbatim>\<open>enumerate(move_points)\<close>. \<^verbatim>\<open>move_objs[i]\<close> raises IndexError when there
  are more points than moves; what was printed before stays printed.
\<close>

fun draw_moves ::
  "move_obj list \<Rightarrow> point list \<Rightarrow> int \<Rightarrow> (nat \<times> point) list \<Rightarrow> printed list \<Rightarrow> element list
    \<Rightarrow> printed list \<times> (error + element list)" where
  "draw_moves objs pts cr [] out els = (out, Inr els)"
| "draw_moves objs pts cr ((i, p) # rest) out els =
     (if length objs \<le> i then (out, Inl IndexError)
      else case draw_lines pts p (beats_num (objs ! i)) of
             Inl e \<Rightarrow> (out @ [Show_move (objs ! i)], Inl e)
           | Inr ls \<Rightarrow>
               draw_moves objs pts cr rest (out @ [Show_move (objs ! i)])
                 (els @ ls @ [move_circle cr p, move_text cr (objs ! i) p]))"

definition too_many_circles :: "move_obj list \<Rightarrow> point list \<Rightarrow> printed list" where
  "too_many_circles objs pts =
     (if length pts > length objs
      then [Say ''Slight error: I have data for too many circles in the diagram.'']
      else [])"

text \<open>
  \<^verbatim>\<open>Diagram.__init__\<close> from the consistency check on, for a given list of points: the
  check, the border, the big circle, the style sheet and the loop. Writing the file
  (\<^verbatim>\<open>self.diagram.save()\<close>) is outside the model.
\<close>

definition draw_diagram ::
  "move_obj list \<Rightarrow> point list \<Rightarrow> int \<Rightarrow> printed list \<times> (error + diagram)" where
  "draw_diagram objs pts cr =
     (let out = too_many_circles objs pts;
          border = Rect (0, 0) (Px (real_of_int DIAGRAM_SIZE), Px (real_of_int DIAGRAM_SIZE))
                     ''10'' ''grey'' ''darkgrey'';
          big = Circle (Px (real_of_int DIAGRAM_RADIUS), Px (real_of_int DIAGRAM_RADIUS))
                  (Px (real_of_int DIAGRAM_RADIUS)) (Px 1) ''grey'' ''darkgrey''
      in case draw_moves objs pts cr (zip [0..<length pts] pts) out [border, big] of
           (out', Inl e) \<Rightarrow> (out', Inl e)
         | (out', Inr els) \<Rightarrow>
             (out', Inr \<lparr> move_points = pts, elements = els, defs = [Style (text_size cr)] \<rparr>))"

text \<open>\<^verbatim>\<open>Diagram(move_objs)\<close>; the division by \<^verbatim>\<open>len(move_objs)\<close> raises for an empty list.\<close>

definition Diagram_init :: "move_obj list \<Rightarrow> printed list \<times> (error + diagram)" where
  "Diagram_init objs =
     (if length objs = 0 then ([], Inl ZeroDivisionError)
      else draw_diagram objs (layout (length objs)) (CIRCLE_RADIUS (length objs)))"

text \<open>The lines of a drawing, and the index pairs they stand for.\<close>

fun is_line :: "element \<Rightarrow> bool" where
  "is_line (Line p q s) = True"
| "is_line e = False"

fun is_text :: "element \<Rightarrow> bool" where
  "is_text (Text t ins anchor len adj) = True"
| "is_text e = False"

definition edges :: "move_obj list \<Rightarrow> (nat \<times> nat) list" where
  "edges objs = concat (map (\<lambda>i. map (\<lambda>j. (i, j)) (beats_num (objs ! i))) [0..<length objs])"

subsection \<open>Sample data\<close>

definition classic_rows :: "string list list" where
  "classic_rows = [[''Scissors'', ''cuts''], [''Paper'', ''wraps''], [''Rock'', ''blunts'']]"

definition classic_game :: game where
  "classic_game =
     \<lparr> move_objs =
         [\<lparr> move = ''Scissors'', beats = [(''Paper'', ''cuts'')], num = 0, beats_num = [1] \<rparr>,
          \<lparr> move = ''Paper'', beats = [(''Rock'', ''wraps'')], num = 1, beats_num = [2] \<rparr>,
          \<lparr> move = ''Rock'', beats = [(''Scissors'', ''blunts'')], num = 2, beats_num = [0] \<rparr>],
       game_score = \<lparr> human = 0, ai = 0 \<rparr>,
       rounds = 0,
       move_names_str = ''Scissors, Paper, Rock'' \<rparr>"

text \<open>A catalog in which two moves carry the same name.\<close>

definition twin_rows :: "string list list" where
  "twin_rows = [[''Rock''], [''Rock''], [''Paper'']]"

definition twin_game :: game where
  "twin_game =
     \<lparr> move_objs =
         [\<lparr> move = ''Rock'', beats = [(''Rock'', ''beats'')], num = 0, beats_num = [1] \<rparr>,
          \<lparr> move = ''Rock'', beats = [(''Paper'', ''beats'')], num = 1, beats_num = [2] \<rparr>,
          \<lparr> move = ''Paper'', beats = [(''Rock'', ''beats'')], num = 2, beats_num = [0] \<rparr>],
       game_score = \<lparr> human = 0, ai = 0 \<rparr>,
       rounds = 0,
       move_names_str = ''Rock, Rock, Paper'' \<rparr>"

section \<open>The tournament relation\<close>

lemma set_py_range2: "set (py_range s n 2) = {i. s \<le> i \<and> i < n \<and> even (i - s)}"
proof (induction s n "2::nat" rule: py_range.induct)
  case (1 start stop)
  show ?case
  proof (cases "stop \<le> start")
    case True
    then show ?thesis by (simp add: py_range.simps)
  next
    case False
    then have "set (py_range start stop 2) = insert start {i. start + 2 \<le> i \<and> i < stop \<and> even (i - (start + 2))}"
      using 1 by (simp add: py_range.simps[of start stop])
    also have "\<dots> = {i. start \<le> i \<and> i < stop \<and> even (i - start)}"
      using False by (auto elim: oddE) presburger+
    finally show ?thesis .
  qed
qed

lemma set_odd_offsets: "set (py_range 1 n 2) = {i. i < n \<and> odd i}"
  unfolding set_py_range2 by (auto elim: oddE)

lemma set_odd_indices: "set (filter (\<lambda>i. i mod 2 \<noteq> 0) [0..<n]) = {i. i < n \<and> odd i}"
  by (auto simp: odd_iff_mod_2_eq_one)

lemma length_odd_indices: "length (filter (\<lambda>i. i mod 2 \<noteq> 0) [0..<n]) = n div 2"
proof (induction n)
  case 0
  then show ?case by simp
next
  case (Suc n)
  show ?case
  proof (cases "n mod 2 = 0")
    case True
    then have "Suc n div 2 = n div 2" by arith
    then show ?thesis using Suc.IH True by simp
  next
    case False
    then have "Suc n div 2 = Suc (n div 2)" by arith
    then show ?thesis using Suc.IH False by simp
  qed
qed

lemma keys_beats_loop:
  "fst ` set (beats_loop number names offs info acc) =
     fst ` set acc \<union> (\<lambda>off. names ! ((number + off) mod length names)) ` set offs"
  by (induction offs arbitrary: info acc) (auto simp: Let_def dom_update)

lemma set_beats_num_list:
  "set (beats_num_list i n) = {(off + i) mod n | off. off < n \<and> odd off}"
  unfolding beats_num_list_def by (auto simp: odd_iff_mod_2_eq_one)

lemma shift_back:
  fixes i n off :: nat
  assumes "i < n" "off < n"
  shows "((off + i) mod n + n - i) mod n = off"
proof (cases "off + i < n")
  case True
  then have "(off + i) mod n + n - i = n + off" using assms by simp
  then show ?thesis using assms by simp
next
  case False
  then have "(off + i) mod n = off + i - n" using assms by (simp add: mod_if)
  then have "(off + i) mod n + n - i = off" using assms False by arith
  then show ?thesis using assms by simp
qed

lemma shift_forth:
  fixes i j n :: nat
  assumes "i < n" "j < n"
  shows "((j + n - i) mod n + i) mod n = j"
proof (cases "i \<le> j")
  case True
  then have "j + n - i = n + (j - i)" using assms by arith
  then have "(j + n - i) mod n = (n + (j - i)) mod n" by (simp only:)
  then have "(j + n - i) mod n = j - i" using assms by simp
  then show ?thesis using assms True by simp
next
  case False
  then have "(j + n - i) mod n = j + n - i" using assms by simp
  moreover have "j + n - i + i = n + j" using assms False by arith
  ultimately show ?thesis using assms by simp
qed

lemma mem_beats_num_list:
  assumes "i < n" "j < n"
  shows "j \<in> set (beats_num_list i n) \<longleftrightarrow> odd ((j + n - i) mod n)"
proof
  assume "j \<in> set (beats_num_list i n)"
  then obtain off where "off < n" "odd off" "j = (off + i) mod n"
    by (auto simp: set_beats_num_list)
  then show "odd ((j + n - i) mod n)" using shift_back[OF assms(1), of off] by simp
next
  assume odd: "odd ((j + n - i) mod n)"
  have "(j + n - i) mod n < n" using assms by simp
  then show "j \<in> set (beats_num_list i n)"
    unfolding set_beats_num_list using odd shift_forth[OF assms] by force
qed

lemma beats_num_list_bound: "i < n \<Longrightarrow> j \<in> set (beats_num_list i n) \<Longrightarrow> j < n"
  by (auto simp: set_beats_num_list)

lemma gaps_sum:
  fixes i j n :: nat
  assumes "i < n" "j < n" "i \<noteq> j"
  shows "(j + n - i) mod n + (i + n - j) mod n = n"
proof (cases "i < j")
  case True
  then have "j + n - i = n + (j - i)" using assms by arith
  then have "(j + n - i) mod n = (n + (j - i)) mod n" by (simp only:)
  then have "(j + n - i) mod n = j - i" using assms by simp
  moreover have "(i + n - j) mod n = i + n - j" using assms True by simp
  ultimately show ?thesis using assms True by arith
next
  case False
  then have lt: "j < i" using assms by simp
  then have "i + n - j = n + (i - j)" using assms by arith
  then have "(i + n - j) mod n = (n + (i - j)) mod n" by (simp only:)
  then have "(i + n - j) mod n = i - j" using assms by simp
  moreover have "(j + n - i) mod n = j + n - i" using assms lt by simp
  ultimately show ?thesis using assms lt by arith
qed

lemma one_direction:
  assumes "odd n" "i < n" "j < n" "i \<noteq> j"
  shows "j \<in> set (beats_num_list i n) \<longleftrightarrow> i \<notin> set (beats_num_list j n)"
proof -
  have "odd ((j + n - i) mod n + (i + n - j) mod n)"
    using gaps_sum[OF assms(2-4)] assms(1) by simp
  then show ?thesis
    using assms by (simp add: mem_beats_num_list)
qed

lemma not_self: "i < n \<Longrightarrow> i \<notin> set (beats_num_list i n)"
  by (simp add: mem_beats_num_list)

lemma distinct_beats_num_list: "i < n \<Longrightarrow> distinct (beats_num_list i n)"
proof -
  assume i: "i < n"
  have "inj_on (\<lambda>k. (k + i) mod n) (set (filter (\<lambda>k. k mod 2 \<noteq> 0) [0..<n]))"
  proof (rule inj_onI)
    fix a b
    assume "a \<in> set (filter (\<lambda>k. k mod 2 \<noteq> 0) [0..<n])" "b \<in> set (filter (\<lambda>k. k mod 2 \<noteq> 0) [0..<n])"
      and eq: "(a + i) mod n = (b + i) mod n"
    then have "a < n" "b < n" by auto
    then have "a = ((a + i) mod n + n - i) mod n" "b = ((b + i) mod n + n - i) mod n"
      using shift_back[OF i] by simp_all
    then show "a = b" using eq by (simp only:)
  qed
  then show ?thesis unfolding beats_num_list_def by (simp add: distinct_map)
qed

lemma length_beats_num_list: "length (beats_num_list i n) = n div 2"
  unfolding beats_num_list_def length_map by (rule length_odd_indices)

lemma card_wins: "i < n \<Longrightarrow> card (set (beats_num_list i n)) = n div 2"
  by (simp add: distinct_card distinct_beats_num_list length_beats_num_list)

lemma card_losses:
  assumes "odd n" "i < n"
  shows "card {j. j < n \<and> i \<in> set (beats_num_list j n)} = n div 2"
proof -
  have "{j. j < n \<and> i \<in> set (beats_num_list j n)} = ({..<n} - {i}) - set (beats_num_list i n)"
    using one_direction[OF assms(1)] assms(2) not_self[OF assms(2)] by auto
  moreover have "set (beats_num_list i n) \<subseteq> {..<n} - {i}"
    using beats_num_list_bound[OF assms(2)] not_self[OF assms(2)] by auto
  ultimately have "card {j. j < n \<and> i \<in> set (beats_num_list j n)} = card ({..<n} - {i}) - card (set (beats_num_list i n))"
    by (simp add: card_Diff_subset)
  also have "\<dots> = (n - 1) - n div 2" using assms by (simp add: card_wins)
  also have "\<dots> = n div 2" using assms(1) by (auto elim: oddE)
  finally show ?thesis .
qed


lemma Move_init_fields:
  assumes "Move_init k info names = Inr m"
  shows "move m = info ! 0" "num m = k" "beats_num m = beats_num_list k (length names)"
    "fst ` set (beats m) = (\<lambda>off. names ! ((k + off) mod length names)) ` {off. off < length names \<and> odd off}"
proof -
  from assms obtain name rest where info: "info = name # rest"
    and m: "m = \<lparr> move = name,
                 beats = beats_loop k names (py_range 1 (length names) 2) rest [],
                 num = k, beats_num = beats_num_list k (length names) \<rparr>"
    by (cases info) (simp_all add: Move_init_def Let_def)
  show "move m = info ! 0" using info m by simp
  show "num m = k" using m by simp
  show "beats_num m = beats_num_list k (length names)" using m by simp
  have "fst ` set (beats m) = fst ` set (beats_loop k names (py_range 1 (length names) 2) rest [])"
    unfolding m by simp
  also have "\<dots> = (\<lambda>off. names ! ((k + off) mod length names)) ` set (py_range 1 (length names) 2)"
    unfolding keys_beats_loop by simp
  finally show "fst ` set (beats m) =
      (\<lambda>off. names ! ((k + off) mod length names)) ` {off. off < length names \<and> odd off}"
    unfolding set_odd_offsets .
qed

lemma build_moves_nth:
  "build_moves i rows names = Inr objs \<Longrightarrow>
     length objs = length rows \<and> (\<forall>k<length rows. Move_init (i + k) (rows ! k) names = Inr (objs ! k))"
proof (induction rows arbitrary: i objs)
  case Nil
  then show ?case by simp
next
  case (Cons row rows)
  from Cons.prems obtain new rest where
    new: "Move_init i row names = Inr new" and
    rest: "build_moves (Suc i) rows names = Inr rest" and
    objs: "objs = new # rest"
    by (auto split: sum.splits)
  from Cons.IH[OF rest] have len: "length rest = length rows"
    and nth: "\<And>k. k < length rows \<Longrightarrow> Move_init (Suc i + k) (rows ! k) names = Inr (rest ! k)"
    by simp_all
  show ?case
  proof (intro conjI allI impI)
    show "length objs = length (row # rows)" using objs len by simp
  next
    fix k assume "k < length (row # rows)"
    then show "Move_init (i + k) ((row # rows) ! k) names = Inr (objs ! k)"
      using new nth objs by (cases k) simp_all
  qed
qed

lemma build_moves_total:
  "\<forall>row \<in> set rows. row \<noteq> [] \<Longrightarrow> \<exists>objs. build_moves i rows names = Inr objs"
proof (induction rows arbitrary: i)
  case Nil
  then show ?case by simp
next
  case (Cons row rows)
  then obtain objs where "build_moves (Suc i) rows names = Inr objs" by fastforce
  moreover from Cons.prems obtain m where "Move_init i row names = Inr m"
    by (cases row) (simp_all add: Move_init_def Let_def)
  ultimately show ?case by simp
qed

lemma Game_init_Inr:
  assumes "Game_init rows = Inr g"
  shows "odd (length (move_objs g))" "3 \<le> length (move_objs g)"
    "length (move_objs g) = length (filter (\<lambda>row. length row \<noteq> 0) rows)"
    "k < length (move_objs g) \<Longrightarrow>
       Move_init k (filter (\<lambda>row. length row \<noteq> 0) rows ! k)
         (map (\<lambda>item. item ! 0) (filter (\<lambda>row. length row \<noteq> 0) rows)) = Inr (move_objs g ! k)"
proof -
  let ?mff = "filter (\<lambda>row. length row \<noteq> 0) rows"
  let ?names = "map (\<lambda>item. item ! 0) ?mff"
  from assms have odd: "length ?mff mod 2 \<noteq> 0" and ge: "\<not> length ?mff < 3"
    by (auto simp: Game_init_def Let_def split: if_splits)
  with assms obtain objs where b: "build_moves 0 ?mff ?names = Inr objs"
    and g: "g = complete_initialisation objs ?names"
    by (auto simp: Game_init_def Let_def split: if_splits sum.splits)
  have objs: "move_objs g = objs" using g by (simp add: complete_initialisation_def)
  from build_moves_nth[OF b] have len: "length objs = length ?mff"
    and nth: "\<And>k. k < length ?mff \<Longrightarrow> Move_init k (?mff ! k) ?names = Inr (objs ! k)"
    by simp_all
  show "length (move_objs g) = length ?mff" using objs len by simp
  show "odd (length (move_objs g))" using odd objs len by (simp add: odd_iff_mod_2_eq_one)
  show "3 \<le> length (move_objs g)" using ge objs len by simp
  show "k < length (move_objs g) \<Longrightarrow> Move_init k (?mff ! k) ?names = Inr (move_objs g ! k)"
    using nth objs len by simp
qed

lemma Game_move_fields:
  assumes "Game_init rows = Inr g" "k < length (move_objs g)"
  shows "num (move_objs g ! k) = k"
    "beats_num (move_objs g ! k) = beats_num_list k (length (move_objs g))"
    "fst ` set (beats (move_objs g ! k)) =
       (\<lambda>off. move (move_objs g ! ((k + off) mod length (move_objs g)))) `
         {off. off < length (move_objs g) \<and> odd off}"
proof -
  let ?mff = "filter (\<lambda>row. length row \<noteq> 0) rows"
  let ?names = "map (\<lambda>item. item ! 0) ?mff"
  let ?N = "length (move_objs g)"
  note G = Game_init_Inr[OF assms(1)]
  have len: "length ?names = ?N" using G(3) by simp
  have name: "move (move_objs g ! j) = ?names ! j" if "j < ?N" for j
    using Move_init_fields(1)[OF G(4)[OF that]] that G(3) by simp
  note M = Move_init_fields[OF G(4)[OF assms(2)]]
  show "num (move_objs g ! k) = k" by (rule M(2))
  show "beats_num (move_objs g ! k) = beats_num_list k ?N" using M(3) len by simp
  have pos: "0 < ?N" by (rule le_less_trans[OF _ assms(2)]) simp
  have "fst ` set (beats (move_objs g ! k)) =
          (\<lambda>off. ?names ! ((k + off) mod ?N)) ` {off. off < ?N \<and> odd off}"
    using M(4) unfolding len .
  also have "\<dots> = (\<lambda>off. move (move_objs g ! ((k + off) mod ?N))) ` {off. off < ?N \<and> odd off}"
    using name pos by (intro image_cong) simp_all
  finally show "fst ` set (beats (move_objs g ! k)) =
       (\<lambda>off. move (move_objs g ! ((k + off) mod ?N))) ` {off. off < ?N \<and> odd off}" .
qed

lemma Game_init_accepts:
  assumes "odd (length (filter (\<lambda>row. length row \<noteq> 0) rows))"
    "3 \<le> length (filter (\<lambda>row. length row \<noteq> 0) rows)"
  shows "\<exists>g. Game_init rows = Inr g"
proof -
  let ?mff = "filter (\<lambda>row. length row \<noteq> 0) rows"
  have "\<forall>row \<in> set ?mff. row \<noteq> []" by auto
  from build_moves_total[OF this] obtain objs where
    "build_moves 0 ?mff (map (\<lambda>item. item ! 0) ?mff) = Inr objs" by blast
  then show ?thesis using assms by (auto simp: Game_init_def Let_def odd_iff_mod_2_eq_one)
qed

lemma Game_init_classic: "Game_init classic_rows = Inr classic_game"
  by code_simp

lemma DefaultGame_classic: "DefaultGame_init = Inr classic_game"
  by code_simp

text \<open>
  Claim C1, as amended. In a catalog that \<open>Game_init\<close> accepts (an odd number \<open>N \<ge> 3\<close> of
  rows, with any verb lists) and whose move names are pairwise distinct, for every move
  index \<open>i\<close> the catalog indices of the moves named by the keys of the name-keyed dictionary
  \<open>beats\<close> are exactly the entries of the index-keyed list \<open>beats_num\<close>, and both are the
  set of the \<open>(i + o) mod N\<close> for the odd \<open>o\<close> with \<open>1 \<le> o \<le> N - 2\<close>.
\<close>

theorem beats_views_agree:
  assumes "Game_init rows = Inr g"
    and "distinct (map move (move_objs g))"
    and "i < length (move_objs g)"
  shows "{j. j < length (move_objs g) \<and> move (move_objs g ! j) \<in> fst ` set (beats (move_objs g ! i))}
           = set (beats_num (move_objs g ! i))
         \<and> set (beats_num (move_objs g ! i))
           = {(i + off) mod length (move_objs g) | off. odd off \<and> 1 \<le> off \<and> off \<le> length (move_objs g) - 2}"
proof -
  let ?N = "length (move_objs g)"
  let ?objs = "move_objs g"
  note G = Game_init_Inr(1,2)[OF assms(1)]
  note F = Game_move_fields[OF assms(1,3)]
  have pos: "0 < ?N" using G(2) by linarith
  have offs: "off < ?N \<and> odd off \<longleftrightarrow> odd off \<and> 1 \<le> off \<and> off \<le> ?N - 2" for off
  proof -
    have "even (?N - 1)" using G by simp
    then have "off \<noteq> ?N - 1" if "odd off" using that by blast
    moreover have "1 \<le> off" if "odd off" using that by (cases off) simp_all
    ultimately show ?thesis using G(2) by (cases "off = ?N - 1") auto
  qed
  have nums: "set (beats_num (?objs ! i)) = {(i + off) mod ?N | off. off < ?N \<and> odd off}"
    unfolding F(2) set_beats_num_list by (simp add: add.commute)
  have "{j. j < ?N \<and> move (?objs ! j) \<in> fst ` set (beats (?objs ! i))}
          = {(i + off) mod ?N | off. off < ?N \<and> odd off}"
  proof (intro set_eqI iffI)
    fix j assume "j \<in> {j. j < ?N \<and> move (?objs ! j) \<in> fst ` set (beats (?objs ! i))}"
    then have j: "j < ?N" and "move (?objs ! j) \<in> fst ` set (beats (?objs ! i))" by simp_all
    then obtain off where off: "off < ?N" "odd off"
      and eq: "move (?objs ! j) = move (?objs ! ((i + off) mod ?N))"
      unfolding F(3) by auto
    have lt: "(i + off) mod ?N < ?N" using pos by simp
    have "map move ?objs ! j = map move ?objs ! ((i + off) mod ?N)"
      using eq j lt by simp
    then have "j = (i + off) mod ?N"
      using j lt assms(2) by (metis nth_eq_iff_index_eq length_map)
    with off show "j \<in> {(i + off) mod ?N | off. off < ?N \<and> odd off}" by blast
  next
    fix j assume "j \<in> {(i + off) mod ?N | off. off < ?N \<and> odd off}"
    then obtain off where off: "off < ?N" "odd off" and j: "j = (i + off) mod ?N" by blast
    have "j < ?N" using j pos by simp
    moreover have "move (?objs ! j) \<in> fst ` set (beats (?objs ! i))"
      unfolding F(3) using off j by blast
    ultimately show "j \<in> {j. j < ?N \<and> move (?objs ! j) \<in> fst ` set (beats (?objs ! i))}" by simp
  qed
  then show ?thesis using nums offs by simp
qed

text \<open>
  The hypotheses of C1 hold for the classic three moves; there the move Rock (index 2)
  beats exactly index 0.
\<close>

theorem beats_views_agree_witness:
  "Game_init classic_rows = Inr classic_game
   \<and> distinct (map move (move_objs classic_game))
   \<and> 2 < length (move_objs classic_game)
   \<and> {j. j < length (move_objs classic_game)
          \<and> move (move_objs classic_game ! j) \<in> fst ` set (beats (move_objs classic_game ! 2))}
       = set (beats_num (move_objs classic_game ! 2))
   \<and> set (beats_num (move_objs classic_game ! 2)) = {0}"
proof -
  have d: "distinct (map move (move_objs classic_game))" by (simp add: classic_game_def)
  have l: "2 < length (move_objs classic_game)" by (simp add: classic_game_def)
  have "set (beats_num (move_objs classic_game ! 2)) = {0}" by (simp add: classic_game_def)
  then show ?thesis
    using beats_views_agree[OF Game_init_classic d l] Game_init_classic d l by simp
qed

text \<open>
  Claim C2. In a catalog that \<open>Game_init\<close> accepts, with \<open>N\<close> moves, the relation
  \<open>beats_idx\<close> on the indices below \<open>N\<close> is irreflexive and antisymmetric, two distinct
  moves are related in exactly one direction, and every move beats exactly \<open>(N - 1) div 2\<close>
  moves and is beaten by exactly \<open>(N - 1) div 2\<close> moves. The list \<open>beats_num\<close> has that
  length, no repetition, and only indices of other moves.
\<close>

theorem beats_relation_balanced:
  assumes "Game_init rows = Inr g"
    and "i < length (move_objs g)"
    and "j < length (move_objs g)"
  shows "\<not> beats_idx g i i
       \<and> (beats_idx g i j \<longrightarrow> \<not> beats_idx g j i)
       \<and> (i \<noteq> j \<longrightarrow> (beats_idx g i j \<longleftrightarrow> \<not> beats_idx g j i))
       \<and> card {b. b < length (move_objs g) \<and> beats_idx g i b} = (length (move_objs g) - 1) div 2
       \<and> card {a. a < length (move_objs g) \<and> beats_idx g a i} = (length (move_objs g) - 1) div 2
       \<and> length (beats_num (move_objs g ! i)) = (length (move_objs g) - 1) div 2
       \<and> distinct (beats_num (move_objs g ! i))
       \<and> set (beats_num (move_objs g ! i)) \<subseteq> {..<length (move_objs g)} - {i}"
proof -
  let ?N = "length (move_objs g)"
  note G = Game_init_Inr(1,2)[OF assms(1)]
  have B: "beats_idx g a b \<longleftrightarrow> b \<in> set (beats_num_list a ?N)" if "a < ?N" for a b
    using Game_move_fields(2)[OF assms(1) that] by (simp add: beats_idx_def)
  have half: "(?N - 1) div 2 = ?N div 2" using G(1) by (auto elim!: oddE)
  have irrefl: "\<not> beats_idx g i i" using B[OF assms(2)] not_self[OF assms(2)] by simp
  have xor: "beats_idx g i j \<longleftrightarrow> \<not> beats_idx g j i" if "i \<noteq> j"
    using one_direction[OF G(1) assms(2,3) that] B[OF assms(2)] B[OF assms(3)] by simp
  have anti: "beats_idx g i j \<longrightarrow> \<not> beats_idx g j i"
    using xor irrefl by (cases "i = j") auto
  have "{b. b < ?N \<and> beats_idx g i b} = set (beats_num_list i ?N)"
    using B[OF assms(2)] beats_num_list_bound[OF assms(2)] by auto
  then have wins: "card {b. b < ?N \<and> beats_idx g i b} = (?N - 1) div 2"
    using card_wins[OF assms(2)] half by simp
  have "{a. a < ?N \<and> beats_idx g a i} = {a. a < ?N \<and> i \<in> set (beats_num_list a ?N)}"
    using B by auto
  then have losses: "card {a. a < ?N \<and> beats_idx g a i} = (?N - 1) div 2"
    using card_losses[OF G(1) assms(2)] half by simp
  have len: "length (beats_num (move_objs g ! i)) = (?N - 1) div 2"
    using Game_move_fields(2)[OF assms(1,2)] half by (simp add: length_beats_num_list)
  have dist: "distinct (beats_num (move_objs g ! i))"
    using Game_move_fields(2)[OF assms(1,2)] distinct_beats_num_list[OF assms(2)] by simp
  have sub: "set (beats_num (move_objs g ! i)) \<subseteq> {..<?N} - {i}"
    using Game_move_fields(2)[OF assms(1,2)] beats_num_list_bound[OF assms(2)]
      not_self[OF assms(2)] by auto
  show ?thesis using irrefl anti xor wins losses len dist sub by blast
qed

text \<open>
  Claim C3, as amended. \<open>Game_init\<close> fails, and so returns no game and no move object, when
  the number of non-empty rows is even (NotOddError, tested first) or less than three
  (InsufficientMovesError). The names themselves are not examined.
\<close>

theorem Game_init_rejects:
  assumes "even (length (filter (\<lambda>row. length row \<noteq> 0) rows))
           \<or> length (filter (\<lambda>row. length row \<noteq> 0) rows) < 3"
  shows "Game_init rows =
           (if even (length (filter (\<lambda>row. length row \<noteq> 0) rows))
            then Inl NotOddError else Inl InsufficientMovesError)"
  using assms by (auto simp: Game_init_def Let_def)

section \<open>Rounding, angles and the layout\<close>

lemmas compass_defs = FULL_CIRCLE_def DIAGRAM_SIZE_def NORTH_def EAST_def SOUTH_def WEST_def

lemma py_round_of_int [simp]: "py_round (of_int k) = k"
  by (simp add: py_round_def)

lemma rounded_of_int [simp]: "rounded (of_int k) = of_int k"
proof -
  have "of_int k * (100::real) = of_int (k * 100)" by simp
  then have "py_round (of_int k * 100) = k * 100" by (simp only: py_round_of_int)
  then show ?thesis by (simp add: rounded_def)
qed

lemma rounded_times_100: "rounded v * 100 = of_int (py_round (v * 100))"
  by (simp add: rounded_def)

lemma rounded_idem [simp]: "rounded (rounded v) = rounded v"
  unfolding rounded_def[of "rounded v"] rounded_times_100 py_round_of_int
  by (simp add: rounded_def)

lemma two_dp_rounded [simp]: "two_dp (rounded v)"
  unfolding two_dp_def rounded_times_100 by simp

lemma two_dp_fixed: "two_dp v \<Longrightarrow> rounded v = v"
proof -
  assume "two_dp v"
  then have eq: "v * 100 = of_int \<lfloor>v * 100\<rfloor>" unfolding two_dp_def by (rule sym)
  have "py_round (v * 100) = \<lfloor>v * 100\<rfloor>"
    by (subst eq) (simp only: py_round_of_int)
  then have "rounded v = of_int \<lfloor>v * 100\<rfloor> / 100" by (simp add: rounded_def)
  also have "\<dots> = v" using eq by simp
  finally show ?thesis .
qed

lemma DIAGRAM_RADIUS_500 [simp]: "DIAGRAM_RADIUS = 500"
proof -
  have "real_of_int DIAGRAM_SIZE / 2 = of_int 500" by (simp add: DIAGRAM_SIZE_def)
  then show ?thesis unfolding DIAGRAM_RADIUS_def by (simp only: py_round_of_int)
qed

lemma npts_angles:
  assumes "0 < n"
  shows "py_round ((360 - 360 / real n) / (360 / real n)) = int n - 1"
proof -
  have "(360 - 360 / real n) / (360 / real n) = real n - 1"
    using assms by (simp add: field_simps)
  also have "\<dots> = of_int (int n - 1)" by simp
  finally show ?thesis by (simp only: py_round_of_int)
qed

lemma angles_eq:
  assumes "0 < n"
  shows "angles n = map (\<lambda>k. real k * (360 / real n) + 360 / real n) [0..<n]"
  unfolding angles_def frange_def Let_def FULL_CIRCLE_def
  using npts_angles[OF assms] by simp

lemma length_angles: "0 < n \<Longrightarrow> length (angles n) = n"
  by (simp add: angles_eq)

lemma angles_nth:
  assumes "k < n"
  shows "angles n ! k = real (k + 1) * 360 / real n"
proof -
  have "0 < n" using assms by simp
  then show ?thesis using assms by (simp add: angles_eq field_simps)
qed

lemma length_layout: "0 < n \<Longrightarrow> length (layout n) = n"
  by (simp add: layout_def length_angles)

lemma layout_nth: "k < n \<Longrightarrow> layout n ! k = move_point (CIRCLE_RADIUS n) (angles n ! k)"
  by (simp add: layout_def length_angles)

lemma angles_3: "angles 3 = [120, 240, 360]"
  by code_simp

lemma angles_4: "angles 4 = [90, 180, 270, 360]"
  by code_simp

lemma CIRCLE_RADIUS_3: "CIRCLE_RADIUS 3 = 167"
  by code_simp

lemma CIRCLE_RADIUS_4: "CIRCLE_RADIUS 4 = 125"
  by code_simp

lemma point_args_cardinal:
  "point_args cr 0 = (real_of_int DIAGRAM_RADIUS, real_of_int cr)"
  "point_args cr 360 = (real_of_int DIAGRAM_RADIUS, real_of_int cr)"
  "point_args cr 90 = (real_of_int (DIAGRAM_SIZE - cr), real_of_int DIAGRAM_RADIUS)"
  "point_args cr 180 = (real_of_int DIAGRAM_RADIUS, real_of_int (DIAGRAM_SIZE - cr))"
  "point_args cr 270 = (real_of_int cr, real_of_int DIAGRAM_RADIUS)"
  by (simp_all add: point_args_def NORTH_def FULL_CIRCLE_def EAST_def SOUTH_def WEST_def)

lemma Point_init_ints:
  "Point_init (real_of_int a) (real_of_int b) = \<lparr> point_x = real_of_int a, point_y = real_of_int b \<rparr>"
  by (simp add: Point_init_def)

lemma move_point_cardinal:
  "move_point cr 0 = \<lparr> point_x = real_of_int DIAGRAM_RADIUS, point_y = real_of_int cr \<rparr>"
  "move_point cr 360 = \<lparr> point_x = real_of_int DIAGRAM_RADIUS, point_y = real_of_int cr \<rparr>"
  "move_point cr 90 = \<lparr> point_x = real_of_int (DIAGRAM_SIZE - cr), point_y = real_of_int DIAGRAM_RADIUS \<rparr>"
  "move_point cr 180 = \<lparr> point_x = real_of_int DIAGRAM_RADIUS, point_y = real_of_int (DIAGRAM_SIZE - cr) \<rparr>"
  "move_point cr 270 = \<lparr> point_x = real_of_int cr, point_y = real_of_int DIAGRAM_RADIUS \<rparr>"
  unfolding move_point_def point_args_cardinal by (simp_all only: prod.case Point_init_ints)

lemma layout_4:
  "layout 4 = [\<lparr> point_x = 875, point_y = 500 \<rparr>, \<lparr> point_x = 500, point_y = 875 \<rparr>,
               \<lparr> point_x = 125, point_y = 500 \<rparr>, \<lparr> point_x = 500, point_y = 125 \<rparr>]"
  unfolding layout_def angles_4 CIRCLE_RADIUS_4
  by (simp add: move_point_cardinal DIAGRAM_SIZE_def)

lemma py_round_near: "\<bar>real_of_int (py_round v) - v\<bar> \<le> 1 / 2"
proof -
  have "real_of_int \<lfloor>v\<rfloor> \<le> v" "v < real_of_int \<lfloor>v\<rfloor> + 1" by linarith+
  then show ?thesis by (auto simp: py_round_def Let_def)
qed

lemma rounded_near: "\<bar>rounded v - v\<bar> \<le> 1 / 200"
proof -
  have "\<bar>real_of_int (py_round (v * 100)) - v * 100\<bar> \<le> 1 / 2" by (rule py_round_near)
  then show ?thesis by (simp add: rounded_def field_simps abs_le_iff)
qed

lemma py_round_le:
  assumes "v \<le> real_of_int k"
  shows "py_round v \<le> k"
proof (cases "v = real_of_int k")
  case True
  then show ?thesis by simp
next
  case False
  then have "v < real_of_int k" using assms by simp
  then have "\<lfloor>v\<rfloor> < k" by (simp add: floor_less_iff)
  then show ?thesis by (auto simp: py_round_def Let_def)
qed

lemma py_round_nonneg: "0 \<le> v \<Longrightarrow> 0 \<le> py_round v"
proof -
  assume "0 \<le> v"
  then have "0 \<le> \<lfloor>v\<rfloor>" by simp
  then show ?thesis by (auto simp: py_round_def Let_def)
qed

lemma CIRCLE_RADIUS_bounds:
  assumes "0 < n"
  shows "0 \<le> CIRCLE_RADIUS n" "CIRCLE_RADIUS n \<le> DIAGRAM_RADIUS"
proof -
  have "(500::real) / real n \<le> 500" using assms by (simp add: field_simps)
  then have "py_round (500 / real n) \<le> 500" using py_round_le[of "500 / real n" 500] by simp
  then show "CIRCLE_RADIUS n \<le> DIAGRAM_RADIUS" by (simp add: CIRCLE_RADIUS_def)
  show "0 \<le> CIRCLE_RADIUS n" by (simp add: CIRCLE_RADIUS_def py_round_nonneg)
qed

lemma fmod_cardinal:
  "fmod 0 360 = 0" "fmod 90 360 = 90" "fmod 180 360 = 180" "fmod 270 360 = 270" "fmod 360 360 = 0"
  by (simp_all add: fmod_def)

lemma not_cardinal:
  assumes "fmod \<theta> 360 \<notin> {0, 90, 180, 270}"
  shows "\<theta> \<noteq> 0" "\<theta> \<noteq> 90" "\<theta> \<noteq> 180" "\<theta> \<noteq> 270" "\<theta> \<noteq> 360"
  using assms fmod_cardinal by auto

lemma point_args_trig:
  assumes "fmod \<theta> 360 \<notin> {0, 90, 180, 270}"
  shows "point_args cr \<theta> =
     (let H = real_of_int (DIAGRAM_RADIUS - cr);
          opposite = H * sin (radians (fmod \<theta> 90));
          adjacent = H * cos (radians (fmod \<theta> 90))
      in if \<theta> < 90 then (real_of_int DIAGRAM_RADIUS + opposite, real_of_int DIAGRAM_RADIUS - adjacent)
         else if \<theta> < 180 then (real_of_int DIAGRAM_RADIUS + adjacent, real_of_int DIAGRAM_RADIUS + opposite)
         else if \<theta> < 270 then (real_of_int DIAGRAM_RADIUS - opposite, real_of_int DIAGRAM_RADIUS + adjacent)
         else (real_of_int DIAGRAM_RADIUS - adjacent, real_of_int DIAGRAM_RADIUS - opposite))"
  using not_cardinal[OF assms]
  by (simp add: point_args_def Let_def NORTH_def FULL_CIRCLE_def EAST_def SOUTH_def WEST_def)

lemma on_circle:
  fixes H c s R :: real
  assumes "s\<^sup>2 + c\<^sup>2 = 1"
  shows "(R + H * s - R)\<^sup>2 + (R - H * c - R)\<^sup>2 = H\<^sup>2"
    "(R + H * c - R)\<^sup>2 + (R + H * s - R)\<^sup>2 = H\<^sup>2"
    "(R - H * s - R)\<^sup>2 + (R + H * c - R)\<^sup>2 = H\<^sup>2"
    "(R - H * c - R)\<^sup>2 + (R - H * s - R)\<^sup>2 = H\<^sup>2"
proof -
  have "(H * s)\<^sup>2 + (H * c)\<^sup>2 = H\<^sup>2 * (s\<^sup>2 + c\<^sup>2)" by (simp add: power_mult_distrib distrib_left)
  then have e: "(H * s)\<^sup>2 + (H * c)\<^sup>2 = H\<^sup>2" using assms by simp
  show "(R + H * s - R)\<^sup>2 + (R - H * c - R)\<^sup>2 = H\<^sup>2" using e by simp
  show "(R + H * c - R)\<^sup>2 + (R + H * s - R)\<^sup>2 = H\<^sup>2" using e by (simp add: add.commute)
  show "(R - H * s - R)\<^sup>2 + (R + H * c - R)\<^sup>2 = H\<^sup>2" using e by simp
  show "(R - H * c - R)\<^sup>2 + (R - H * s - R)\<^sup>2 = H\<^sup>2" using e by (simp add: add.commute)
qed

text \<open>
  Over the real numbers the unrounded point of a non-cardinal angle lies on the circle of
  radius \<open>DIAGRAM_RADIUS - cr\<close> around the centre. This is a statement about the formula;
  the doubles that the program computes with \<^verbatim>\<open>math.sin\<close> and \<^verbatim>\<open>math.cos\<close> satisfy it only
  up to their rounding.
\<close>

lemma point_args_circle:
  assumes "fmod \<theta> 360 \<notin> {0, 90, 180, 270}"
  shows "(fst (point_args cr \<theta>) - real_of_int DIAGRAM_RADIUS)\<^sup>2
         + (snd (point_args cr \<theta>) - real_of_int DIAGRAM_RADIUS)\<^sup>2
         = (real_of_int (DIAGRAM_RADIUS - cr))\<^sup>2"
proof -
  let ?R = "real_of_int DIAGRAM_RADIUS"
  let ?H = "real_of_int (DIAGRAM_RADIUS - cr)"
  let ?t = "radians (fmod \<theta> 90)"
  note C = on_circle[OF sin_cos_squared_add, of ?R ?H ?t]
  note P = point_args_trig[OF assms, of cr, unfolded Let_def]
  consider "\<theta> < 90" | "\<not> \<theta> < 90" "\<theta> < 180" | "\<not> \<theta> < 90" "\<not> \<theta> < 180" "\<theta> < 270"
    | "\<not> \<theta> < 90" "\<not> \<theta> < 180" "\<not> \<theta> < 270"
    by blast
  then show ?thesis
  proof cases
    case 1
    then have "point_args cr \<theta> = (?R + ?H * sin ?t, ?R - ?H * cos ?t)" using P by simp
    then show ?thesis using C(1) by (simp only: fst_conv snd_conv)
  next
    case 2
    then have "point_args cr \<theta> = (?R + ?H * cos ?t, ?R + ?H * sin ?t)" using P by simp
    then show ?thesis using C(2) by (simp only: fst_conv snd_conv)
  next
    case 3
    then have "point_args cr \<theta> = (?R - ?H * sin ?t, ?R + ?H * cos ?t)" using P by simp
    then show ?thesis using C(3) by (simp only: fst_conv snd_conv)
  next
    case 4
    then have "point_args cr \<theta> = (?R - ?H * cos ?t, ?R - ?H * sin ?t)" using P by simp
    then show ?thesis using C(4) by (simp only: fst_conv snd_conv)
  qed
qed

lemma fmod_120: "fmod 120 360 = 120" "fmod 120 90 = 30"
  by (simp_all add: fmod_def)

text \<open>
  Claim C7. \<open>Point_init\<close> rounds both coordinates to a whole number of hundredths, at most
  half a hundredth away from its arguments, and every point of the layout has such
  coordinates. Points are values: nothing changes a coordinate after \<open>Point_init\<close>, and the
  layout is a function of the number of moves alone.
\<close>

theorem points_two_decimals:
  "two_dp (point_x (Point_init a b)) \<and> two_dp (point_y (Point_init a b))
   \<and> \<bar>point_x (Point_init a b) - a\<bar> \<le> 1 / 200 \<and> \<bar>point_y (Point_init a b) - b\<bar> \<le> 1 / 200
   \<and> (\<forall>p \<in> set (layout n). two_dp (point_x p) \<and> two_dp (point_y p))"
proof -
  have "two_dp (point_x p) \<and> two_dp (point_y p)" if "p \<in> set (layout n)" for p
  proof -
    from that obtain \<theta> where "p = move_point (CIRCLE_RADIUS n) \<theta>" by (auto simp: layout_def)
    then show ?thesis by (simp add: move_point_def Point_init_def split: prod.splits)
  qed
  moreover have "two_dp (point_x (Point_init a b))" "two_dp (point_y (Point_init a b))"
    by (simp_all add: Point_init_def)
  moreover have "\<bar>point_x (Point_init a b) - a\<bar> \<le> 1 / 200" "\<bar>point_y (Point_init a b) - b\<bar> \<le> 1 / 200"
    using rounded_near[of a] rounded_near[of b] by (simp_all add: Point_init_def)
  ultimately show ?thesis by blast
qed

section \<open>The drawing loop\<close>

lemma draw_lines_ok:
  "\<forall>t \<in> set ts. t < length pts \<Longrightarrow>
     draw_lines pts p ts = Inr (map (\<lambda>t. Line p (pts ! t) ''black'') ts)"
  by (induction ts) auto

lemma draw_moves_ok:
  assumes "\<forall>(i, p) \<in> set xs. i < length objs \<and> (\<forall>t \<in> set (beats_num (objs ! i)). t < length pts)"
  shows "draw_moves objs pts cr xs out els =
     (out @ map (\<lambda>(i, p). Show_move (objs ! i)) xs,
      Inr (els @ concat (map (\<lambda>(i, p). map (\<lambda>t. Line p (pts ! t) ''black'') (beats_num (objs ! i))
                                       @ [move_circle cr p, move_text cr (objs ! i) p]) xs)))"
  using assms
proof (induction xs arbitrary: out els)
  case Nil
  then show ?case by simp
next
  case (Cons a xs)
  obtain i p where a: "a = (i, p)" by (cases a)
  from Cons.prems a have i: "i < length objs"
    and ts: "\<forall>t \<in> set (beats_num (objs ! i)). t < length pts"
    and rest: "\<forall>(i, p) \<in> set xs. i < length objs \<and> (\<forall>t \<in> set (beats_num (objs ! i)). t < length pts)"
    by auto
  show ?case
    unfolding a using i draw_lines_ok[OF ts, of p] Cons.IH[OF rest] by simp
qed


lemma draw_moves_overrun:
  assumes "\<exists>(i, p) \<in> set xs. length objs \<le> i"
  shows "\<exists>e. snd (draw_moves objs pts cr xs out els) = Inl e"
  using assms
proof (induction xs arbitrary: out els)
  case Nil
  then show ?case by simp
next
  case (Cons a xs)
  obtain i p where a: "a = (i, p)" by (cases a)
  show ?case
  proof (cases "length objs \<le> i")
    case True
    then show ?thesis unfolding a by simp
  next
    case False
    with Cons.prems a have later: "\<exists>(i, p) \<in> set xs. length objs \<le> i" by auto
    show ?thesis
    proof (cases "draw_lines pts p (beats_num (objs ! i))")
      case (Inl e)
      then show ?thesis unfolding a using False by simp
    next
      case (Inr ls)
      then show ?thesis unfolding a using False Cons.IH[OF later] by simp
    qed
  qed
qed

lemma zip_upt_nth: "zip [0..<length pts] pts = map (\<lambda>i. (i, pts ! i)) [0..<length pts]"
  by (rule nth_equalityI) simp_all

lemma draw_diagram_ok:
  assumes "length pts = length objs"
    and "\<forall>i < length objs. \<forall>t \<in> set (beats_num (objs ! i)). t < length pts"
  shows "draw_diagram objs pts cr =
     (map Show_move objs,
      Inr \<lparr> move_points = pts,
            elements =
              [Rect (0, 0) (Px (real_of_int DIAGRAM_SIZE), Px (real_of_int DIAGRAM_SIZE))
                 ''10'' ''grey'' ''darkgrey'',
               Circle (Px (real_of_int DIAGRAM_RADIUS), Px (real_of_int DIAGRAM_RADIUS))
                 (Px (real_of_int DIAGRAM_RADIUS)) (Px 1) ''grey'' ''darkgrey'']
              @ concat (map (\<lambda>i. map (\<lambda>t. Line (pts ! i) (pts ! t) ''black'') (beats_num (objs ! i))
                                   @ [move_circle cr (pts ! i), move_text cr (objs ! i) (pts ! i)])
                          [0..<length objs]),
            defs = [Style (text_size cr)] \<rparr>)"
proof -
  have pre: "\<forall>(i, p) \<in> set (zip [0..<length pts] pts).
               i < length objs \<and> (\<forall>t \<in> set (beats_num (objs ! i)). t < length pts)"
    unfolding zip_upt_nth using assms by auto
  have shown: "map (\<lambda>(i, p). Show_move (objs ! i)) (zip [0..<length pts] pts) = map Show_move objs"
    unfolding zip_upt_nth using assms(1) by (intro nth_equalityI) simp_all
  have els: "map (\<lambda>(i, p). map (\<lambda>t. Line p (pts ! t) ''black'') (beats_num (objs ! i))
                              @ [move_circle cr p, move_text cr (objs ! i) p]) (zip [0..<length pts] pts)
           = map (\<lambda>i. map (\<lambda>t. Line (pts ! i) (pts ! t) ''black'') (beats_num (objs ! i))
                              @ [move_circle cr (pts ! i), move_text cr (objs ! i) (pts ! i)])
               [0..<length objs]"
    unfolding zip_upt_nth using assms(1) by (simp add: o_def)
  have none: "too_many_circles objs pts = []" using assms(1) by (simp add: too_many_circles_def)
  show ?thesis
    unfolding draw_diagram_def Let_def none draw_moves_ok[OF pre] shown els by simp
qed

lemma Diagram_init_game:
  assumes "Game_init rows = Inr g"
  shows "Diagram_init (move_objs g) =
     (map Show_move (move_objs g),
      Inr \<lparr> move_points = layout (length (move_objs g)),
            elements =
              [Rect (0, 0) (Px (real_of_int DIAGRAM_SIZE), Px (real_of_int DIAGRAM_SIZE))
                 ''10'' ''grey'' ''darkgrey'',
               Circle (Px (real_of_int DIAGRAM_RADIUS), Px (real_of_int DIAGRAM_RADIUS))
                 (Px (real_of_int DIAGRAM_RADIUS)) (Px 1) ''grey'' ''darkgrey'']
              @ concat (map (\<lambda>i. map (\<lambda>t. Line (layout (length (move_objs g)) ! i)
                                              (layout (length (move_objs g)) ! t) ''black'')
                                      (beats_num (move_objs g ! i))
                                   @ [move_circle (CIRCLE_RADIUS (length (move_objs g)))
                                        (layout (length (move_objs g)) ! i),
                                      move_text (CIRCLE_RADIUS (length (move_objs g))) (move_objs g ! i)
                                        (layout (length (move_objs g)) ! i)])
                          [0..<length (move_objs g)]),
            defs = [Style (text_size (CIRCLE_RADIUS (length (move_objs g))))] \<rparr>)"
proof -
  let ?N = "length (move_objs g)"
  have pos: "0 < ?N" using Game_init_Inr(2)[OF assms] by linarith
  have len: "length (layout ?N) = ?N" using pos by (rule length_layout)
  have tg: "\<forall>i < ?N. \<forall>t \<in> set (beats_num (move_objs g ! i)). t < length (layout ?N)"
    using Game_move_fields(2)[OF assms] beats_num_list_bound len by auto
  have "Diagram_init (move_objs g) = draw_diagram (move_objs g) (layout ?N) (CIRCLE_RADIUS ?N)"
    using pos by (simp add: Diagram_init_def)
  then show ?thesis using draw_diagram_ok[OF len tg] by simp
qed

section \<open>Rounding to a double\<close>

lemma fl_scale:
  assumes lo: "2 ^ 52 \<le> \<bar>v\<bar> * 2 ^ j" and hi: "\<bar>v\<bar> * 2 ^ j < 2 ^ 53"
  shows "fl v = real_of_int (py_round (v * 2 ^ j)) / 2 ^ j"
proof -
  have pos: "0 < \<bar>v\<bar>"
  proof (rule ccontr)
    assume "\<not> 0 < \<bar>v\<bar>"
    then have "\<bar>v\<bar> = 0" by simp
    with lo show False by simp
  qed
  then have nz: "v \<noteq> 0" by auto
  have p: "(2::real) powr (real_of_int (52 - int j)) = 2 ^ 52 / 2 ^ j"
    by (simp add: powr_diff powr_realpow)
  have q: "(2::real) powr (real_of_int (52 - int j) + 1) = 2 ^ 53 / 2 ^ j"
    by (simp add: powr_diff powr_add powr_realpow)
  have "2 powr (real_of_int (52 - int j)) \<le> \<bar>v\<bar>"
    unfolding p using lo by (simp add: field_simps)
  then have a: "real_of_int (52 - int j) \<le> log 2 \<bar>v\<bar>"
    using pos by (simp add: le_log_iff)
  have "\<bar>v\<bar> < 2 powr (real_of_int (52 - int j) + 1)"
    unfolding q using hi by (simp add: field_simps)
  then have b: "log 2 \<bar>v\<bar> < real_of_int (52 - int j) + 1"
    using pos by (simp add: log_less_iff)
  have "\<lfloor>log 2 \<bar>v\<bar>\<rfloor> = 52 - int j" using a b by (rule floor_unique)
  then have u: "2 powr (real_of_int \<lfloor>log 2 \<bar>v\<bar>\<rfloor> - 52) = 1 / 2 ^ j"
    by (simp add: powr_minus powr_realpow divide_inverse)
  show ?thesis unfolding fl_def Let_def u using nz by simp
qed

lemma fl_error: "\<bar>fl v - v\<bar> \<le> \<bar>v\<bar> / 2 ^ 53"
proof (cases "v = 0")
  case True
  then show ?thesis by (simp add: fl_def)
next
  case False
  define u where "u = 2 powr (real_of_int \<lfloor>log 2 \<bar>v\<bar>\<rfloor> - 52)"
  have upos: "0 < u" by (simp add: u_def)
  have "real_of_int \<lfloor>log 2 \<bar>v\<bar>\<rfloor> - 52 \<le> log 2 \<bar>v\<bar> - 52" by simp
  then have "u \<le> 2 powr (log 2 \<bar>v\<bar> - 52)" unfolding u_def by (intro powr_mono) simp_all
  also have "\<dots> = \<bar>v\<bar> / 2 ^ 52" using False by (simp add: powr_diff powr_realpow)
  finally have ule: "u \<le> \<bar>v\<bar> / 2 ^ 52" .
  have "fl v = real_of_int (py_round (v / u)) * u"
    using False by (simp add: fl_def Let_def u_def)
  then have "fl v - v = (real_of_int (py_round (v / u)) - v / u) * u"
    using upos by (simp add: field_simps)
  then have "\<bar>fl v - v\<bar> = \<bar>real_of_int (py_round (v / u)) - v / u\<bar> * u"
    using upos by (simp add: abs_mult)
  also have "\<dots> \<le> 1 / 2 * u"
    using py_round_near[of "v / u"] upos by (intro mult_right_mono) simp_all
  also have "\<dots> \<le> 1 / 2 * (\<bar>v\<bar> / 2 ^ 52)" using ule by simp
  also have "\<dots> = \<bar>v\<bar> / 2 ^ 53" by simp
  finally show ?thesis .
qed

lemma py_round_within:
  assumes "\<bar>w - real_of_int k\<bar> < 1 / 2"
  shows "py_round w = k"
proof (cases "real_of_int k \<le> w")
  case True
  then have "\<lfloor>w\<rfloor> = k" using assms by (intro floor_unique) (simp_all add: abs_less_iff)
  then show ?thesis using assms True by (simp add: py_round_def Let_def abs_less_iff)
next
  case False
  then have "\<lfloor>w\<rfloor> = k - 1" using assms by (intro floor_unique) (simp_all add: abs_less_iff)
  then show ?thesis using assms False by (simp add: py_round_def Let_def abs_less_iff)
qed

lemma rounded_fl:
  assumes "two_dp v" and "\<bar>v\<bar> \<le> 1001"
  shows "rounded (fl v) = v"
proof -
  define k where "k = \<lfloor>v * 100\<rfloor>"
  from assms(1) have k: "v * 100 = real_of_int k" unfolding two_dp_def k_def by (rule sym)
  have "\<bar>fl v - v\<bar> \<le> \<bar>v\<bar> / 2 ^ 53" by (rule fl_error)
  also have "\<dots> \<le> 1001 / 2 ^ 53" using assms(2) by (intro divide_right_mono) simp_all
  also have "\<dots> < 1 / 200" by simp
  finally have near: "\<bar>fl v - v\<bar> < 1 / 200" .
  have "fl v * 100 - real_of_int k = (fl v - v) * 100" unfolding k[symmetric] by (simp add: algebra_simps)
  then have "\<bar>fl v * 100 - real_of_int k\<bar> = \<bar>(fl v - v) * 100\<bar>" by (simp only:)
  also have "\<dots> = \<bar>fl v - v\<bar> * 100" by (subst abs_mult) simp
  also have "\<dots> < 1 / 2" using near by simp
  finally have "py_round (fl v * 100) = k" by (rule py_round_within)
  then have "rounded (fl v) = real_of_int k / 100" by (simp add: rounded_def)
  also have "\<dots> = v" unfolding k[symmetric] by simp
  finally show ?thesis .
qed

section \<open>The doubles of the sample runs\<close>

lemma fl_19_10: "fl (19 / 10) = 4278419646001971 / 2251799813685248"
proof -
  have "py_round ((19 / 10) * 2 ^ 52) = 8556839292003942" by code_simp
  then show ?thesis using fl_scale[of "19 / 10" 52] by simp
qed

lemma fl_19_167: "fl (714496080882329157 / 2251799813685248) = 5582000631893197 / 17592186044416"
proof -
  have "py_round ((714496080882329157 / 2251799813685248) * 2 ^ 44) = 5582000631893197" by code_simp
  then show ?thesis using fl_scale[of "714496080882329157 / 2251799813685248" 44] by simp
qed

lemma fl_4_12: "fl (1 / 3) = 6004799503160661 / 18014398509481984"
proof -
  have "py_round ((1 / 3) * 2 ^ 54) = 6004799503160661" by code_simp
  then show ?thesis using fl_scale[of "1 / 3" 54] by simp
qed

lemma fl_3_12: "fl (1 / 4) = 1 / 4"
proof -
  have "py_round ((1 / 4) * 2 ^ 54) = 4503599627370496" by code_simp
  then show ?thesis using fl_scale[of "1 / 4" 54] by simp
qed

lemma fl_width_4: "fl (33518794621034765098201683923217 / 316912650057057350374175801344) = 7442667509190929 / 70368744177664"
proof -
  have "py_round ((33518794621034765098201683923217 / 316912650057057350374175801344) * 2 ^ 46) = 7442667509190929" by code_simp
  then show ?thesis using fl_scale[of "33518794621034765098201683923217 / 316912650057057350374175801344" 46] by simp
qed

lemma fl_width_3: "fl (5582000631893197 / 70368744177664) = 5582000631893197 / 70368744177664"
proof -
  have "py_round ((5582000631893197 / 70368744177664) * 2 ^ 46) = 5582000631893197" by code_simp
  then show ?thesis using fl_scale[of "5582000631893197 / 70368744177664" 46] by simp
qed

lemma fl_167_3: "fl (167 / 3) = 7834386851779925 / 140737488355328"
proof -
  have "py_round ((167 / 3) * 2 ^ 47) = 7834386851779925" by code_simp
  then show ?thesis using fl_scale[of "167 / 3" 47] by simp
qed

lemma fl_ts_4: "fl (7834386851779925 / 562949953421312) = 7834386851779925 / 562949953421312"
proof -
  have "py_round ((7834386851779925 / 562949953421312) * 2 ^ 49) = 7834386851779925" by code_simp
  then show ?thesis using fl_scale[of "7834386851779925 / 562949953421312" 49] by simp
qed

lemma fl_167: "fl (167) = 167"
proof -
  have "py_round ((167) * 2 ^ 45) = 5875790138834944" by code_simp
  then show ?thesis using fl_scale[of "167" 45] by simp
qed

lemma fl_500: "fl (500) = 500"
proof -
  have "py_round ((500) * 2 ^ 44) = 8796093022208000" by code_simp
  then show ?thesis using fl_scale[of "500" 44] by simp
qed

lemma fl_shift: "fl (101847029073139029 / 562949953421312) = 6365439317071189 / 35184372088832"
proof -
  have "py_round ((101847029073139029 / 562949953421312) * 2 ^ 45) = 6365439317071189" by code_simp
  then show ?thesis using fl_scale[of "101847029073139029 / 562949953421312" 45] by simp
qed

lemma fl_slice_55: "fl (72 / 11) = 7369526662969903 / 1125899906842624"
proof -
  have "py_round ((72 / 11) * 2 ^ 50) = 7369526662969903" by code_simp
  then show ?thesis using fl_scale[of "72 / 11" 50] by simp
qed

lemma fl_span_55: "fl (397954439800374737 / 1125899906842624) = 6218038121880855 / 17592186044416"
proof -
  have "py_round ((397954439800374737 / 1125899906842624) * 2 ^ 44) = 6218038121880855" by code_simp
  then show ?thesis using fl_scale[of "397954439800374737 / 1125899906842624" 44] by simp
qed

lemma fl_quot_55: "fl (397954439800374720 / 7369526662969903) = 7599824371187711 / 140737488355328"
proof -
  have "py_round ((397954439800374720 / 7369526662969903) * 2 ^ 47) = 7599824371187711" by code_simp
  then show ?thesis using fl_scale[of "397954439800374720 / 7369526662969903" 47] by simp
qed

lemma fl_prod_55: "fl (198977219900187381 / 562949953421312) = 777254765235107 / 2199023255552"
proof -
  have "py_round ((198977219900187381 / 562949953421312) * 2 ^ 44) = 6218038121880856" by code_simp
  then show ?thesis using fl_scale[of "198977219900187381 / 562949953421312" 44] by simp
qed

lemma fl_sum_55: "fl (405323966463344687 / 1125899906842624) = 6333186975989761 / 17592186044416"
proof -
  have "py_round ((405323966463344687 / 1125899906842624) * 2 ^ 44) = 6333186975989761" by code_simp
  then show ?thesis using fl_scale[of "405323966463344687 / 1125899906842624" 44] by simp
qed

section \<open>Catalog validation and sample runs\<close>

text \<open>
  The hypotheses of C2 hold for the classic three moves: Scissors (0) beats Paper (1) and
  not the other way round, with one win and one loss.
\<close>

theorem beats_relation_balanced_witness:
  "Game_init classic_rows = Inr classic_game
   \<and> 0 < length (move_objs classic_game) \<and> 1 < length (move_objs classic_game)
   \<and> \<not> beats_idx classic_game 0 0
   \<and> beats_idx classic_game 0 1 \<and> \<not> beats_idx classic_game 1 0
   \<and> card {b. b < length (move_objs classic_game) \<and> beats_idx classic_game 0 b} = 1
   \<and> card {a. a < length (move_objs classic_game) \<and> beats_idx classic_game a 0} = 1"
proof -
  have l0: "0 < length (move_objs classic_game)" and l1: "1 < length (move_objs classic_game)"
    by (simp_all add: classic_game_def)
  have b: "beats_idx classic_game 0 1" by (simp add: beats_idx_def classic_game_def)
  have n: "(length (move_objs classic_game) - 1) div 2 = 1" by (simp add: classic_game_def)
  show ?thesis
    using beats_relation_balanced[OF Game_init_classic l0 l1] Game_init_classic l0 l1 b n
    by simp
qed

text \<open>
  Two non-empty rows are rejected as not odd, a single row as insufficient.
\<close>

theorem Game_init_rejects_witness:
  "even (length (filter (\<lambda>row. length row \<noteq> 0) [[''Rock''], [], [''Paper'', ''wraps'']]))
   \<and> Game_init [[''Rock''], [], [''Paper'', ''wraps'']] = Inl NotOddError
   \<and> length (filter (\<lambda>row. length row \<noteq> 0) [[''Rock'']]) < 3
   \<and> Game_init [[''Rock'']] = Inl InsufficientMovesError"
proof -
  have a: "even (length (filter (\<lambda>row. length row \<noteq> 0) [[''Rock''], [], [''Paper'', ''wraps'']]))
           \<or> length (filter (\<lambda>row. length row \<noteq> 0) [[''Rock''], [], [''Paper'', ''wraps'']]) < 3"
    by simp
  have b: "even (length (filter (\<lambda>row. length row \<noteq> 0) [[''Rock'']]))
           \<or> length (filter (\<lambda>row. length row \<noteq> 0) [[''Rock'']]) < 3"
    by simp
  show ?thesis using Game_init_rejects[OF a] Game_init_rejects[OF b] by simp
qed

text \<open>
  Claim C3 as stated fails: three rows of which two carry the same name, and three rows of
  which one carries the empty name, are both accepted and yield three move objects.
\<close>

theorem Game_init_unchecked_names:
  "Game_init [[''Rock''], [''Rock''], [''Paper'']] =
     Inr \<lparr> move_objs =
             [\<lparr> move = ''Rock'', beats = [(''Rock'', ''beats'')], num = 0, beats_num = [1] \<rparr>,
              \<lparr> move = ''Rock'', beats = [(''Paper'', ''beats'')], num = 1, beats_num = [2] \<rparr>,
              \<lparr> move = ''Paper'', beats = [(''Rock'', ''beats'')], num = 2, beats_num = [0] \<rparr>],
           game_score = \<lparr> human = 0, ai = 0 \<rparr>, rounds = 0,
           move_names_str = ''Rock, Rock, Paper'' \<rparr>
   \<and> Game_init [['''', ''cuts''], [''Paper''], [''Rock'']] =
     Inr \<lparr> move_objs =
             [\<lparr> move = '''', beats = [(''Paper'', ''cuts'')], num = 0, beats_num = [1] \<rparr>,
              \<lparr> move = ''Paper'', beats = [(''Rock'', ''beats'')], num = 1, beats_num = [2] \<rparr>,
              \<lparr> move = ''Rock'', beats = [('''', ''beats'')], num = 2, beats_num = [0] \<rparr>],
           game_score = \<lparr> human = 0, ai = 0 \<rparr>, rounds = 0,
           move_names_str = '', Paper, Rock'' \<rparr>"
  by code_simp

text \<open>
  The first point of the layout for three moves is a member of that layout and has
  two-decimal coordinates; so has the point made from one third and two thirds.
\<close>

theorem points_two_decimals_witness:
  "layout 3 ! 0 \<in> set (layout 3)
   \<and> two_dp (point_x (layout 3 ! 0)) \<and> two_dp (point_y (layout 3 ! 0))
   \<and> two_dp (point_x (Point_init (1 / 3) (2 / 3)))"
proof -
  have m: "layout 3 ! 0 \<in> set (layout 3)" by (rule nth_mem) (simp add: length_layout)
  show ?thesis using points_two_decimals[of "1 / 3" "2 / 3" 3] m by blast
qed

lemma Game_init_twins: "Game_init twin_rows = Inr twin_game"
  by code_simp

text \<open>
  Claim C1 as stated fails, since names are not checked: the three rows Rock, Rock, Paper
  are accepted, the first move beats the name Rock, which is its own name too, so index 0
  is among the indices of the moves its dictionary names, and it is not in its list
  \<open>beats_num = [1]\<close>.
\<close>

theorem beats_views_differ_for_twins:
  "Game_init twin_rows = Inr twin_game
   \<and> 0 < length (move_objs twin_game)
   \<and> move (move_objs twin_game ! 0) \<in> fst ` set (beats (move_objs twin_game ! 0))
   \<and> 0 \<notin> set (beats_num (move_objs twin_game ! 0))
   \<and> {j. j < length (move_objs twin_game)
           \<and> move (move_objs twin_game ! j) \<in> fst ` set (beats (move_objs twin_game ! 0))}
       \<noteq> set (beats_num (move_objs twin_game ! 0))"
proof -
  have a: "0 < length (move_objs twin_game)" by (simp add: twin_game_def)
  have b: "move (move_objs twin_game ! 0) \<in> fst ` set (beats (move_objs twin_game ! 0))"
    by (simp add: twin_game_def)
  have c: "0 \<notin> set (beats_num (move_objs twin_game ! 0))" by (simp add: twin_game_def)
  have "0 \<in> {j. j < length (move_objs twin_game)
           \<and> move (move_objs twin_game ! j) \<in> fst ` set (beats (move_objs twin_game ! 0))}"
    using a b by simp
  then have "{j. j < length (move_objs twin_game)
           \<and> move (move_objs twin_game ! j) \<in> fst ` set (beats (move_objs twin_game ! 0))}
       \<noteq> set (beats_num (move_objs twin_game ! 0))"
    using c by blast
  then show ?thesis using Game_init_twins a b c by blast
qed

section \<open>The edges of the diagram\<close>

lemma sum_list_const:
  "(\<And>x. x \<in> set xs \<Longrightarrow> f x = (c::nat)) \<Longrightarrow> sum_list (map f xs) = c * length xs"
  by (induction xs) simp_all

lemma distinct_pairs:
  "distinct xs \<Longrightarrow> (\<And>i. i \<in> set xs \<Longrightarrow> distinct (f i)) \<Longrightarrow>
     distinct (concat (map (\<lambda>i. map (Pair i) (f i)) xs))"
proof (induction xs)
  case Nil
  then show ?case by simp
next
  case (Cons a xs)
  have "distinct (map (Pair a) (f a))" using Cons.prems(2)[of a] by (simp add: distinct_map inj_on_def)
  moreover have "distinct (concat (map (\<lambda>i. map (Pair i) (f i)) xs))"
    using Cons by simp
  moreover have "set (map (Pair a) (f a)) \<inter> set (concat (map (\<lambda>i. map (Pair i) (f i)) xs)) = {}"
    using Cons.prems(1) by auto
  ultimately show ?case by simp
qed

lemma set_edges:
  "set (edges objs) = {(a, b). a < length objs \<and> b \<in> set (beats_num (objs ! a))}"
  by (auto simp: edges_def)

lemma kinds_of_move_elements [simp]:
  "\<not> is_line (move_circle cr p)" "\<not> is_line (move_text cr obj p)"
  "\<not> is_text (move_circle cr p)" "is_text (move_text cr obj p)"
  by (simp_all add: move_circle_def move_text_def)

lemma filter_line_map [simp]:
  "filter is_line (map (\<lambda>t. Line p (pts ! t) s) ts) = map (\<lambda>t. Line p (pts ! t) s) ts"
  "filter is_text (map (\<lambda>t. Line p (pts ! t) s) ts) = []"
  by (induction ts) simp_all

lemma lines_of_edges:
  "map (\<lambda>(a, b). Line (pts ! a) (pts ! b) ''black'') (edges objs)
     = concat (map (\<lambda>i. map (\<lambda>t. Line (pts ! i) (pts ! t) ''black'') (beats_num (objs ! i)))
                 [0..<length objs])"
  by (simp add: edges_def map_concat o_def)

lemma length_edges_game:
  assumes "Game_init rows = Inr g"
  shows "length (edges (move_objs g)) = length (move_objs g) * (length (move_objs g) - 1) div 2"
proof -
  let ?N = "length (move_objs g)"
  have each: "length (map (Pair i) (beats_num (move_objs g ! i))) = ?N div 2"
    if "i \<in> set [0..<?N]" for i
    using that Game_move_fields(2)[OF assms, of i] by (simp add: length_beats_num_list)
  have "length (edges (move_objs g))
          = sum_list (map (\<lambda>i. length (map (Pair i) (beats_num (move_objs g ! i)))) [0..<?N])"
    by (simp add: edges_def length_concat o_def)
  also have "\<dots> = (?N div 2) * length [0..<?N]"
    using each by (rule sum_list_const)
  also have "\<dots> = ?N * (?N - 1) div 2"
  proof -
    from Game_init_Inr(1)[OF assms] obtain k where "?N = 2 * k + 1" by (auto elim: oddE)
    then show ?thesis by simp
  qed
  finally show ?thesis .
qed

lemma distinct_edges_game:
  assumes "Game_init rows = Inr g"
  shows "distinct (edges (move_objs g))"
  unfolding edges_def
proof (rule distinct_pairs)
  show "distinct [0..<length (move_objs g)]" by simp
next
  fix i assume "i \<in> set [0..<length (move_objs g)]"
  then have i: "i < length (move_objs g)" by simp
  show "distinct (beats_num (move_objs g ! i))"
    using Game_move_fields(2)[OF assms i] distinct_beats_num_list[OF i] by simp
qed

text \<open>
  Claim C8. For a catalog that \<open>Game_init\<close> accepts, with \<open>N\<close> moves, \<open>Diagram_init\<close> returns a
  diagram whose lines are, in order, one line for every pair of \<open>edges\<close>: from the point of
  move \<open>a\<close> to the point of every \<open>b\<close> in the list \<open>beats_num\<close> of move \<open>a\<close>. There are
  \<open>N * (N - 1) div 2\<close> of them, no pair occurs twice, no move is joined to itself, and of
  two distinct moves \<open>i\<close> and \<open>j\<close> exactly one of \<open>(i, j)\<close> and \<open>(j, i)\<close> is an edge.
\<close>

theorem diagram_edges:
  assumes "Game_init rows = Inr g"
    and "i < length (move_objs g)" and "j < length (move_objs g)" and "i \<noteq> j"
  shows "(\<exists>out d. Diagram_init (move_objs g) = (out, Inr d)
            \<and> filter is_line (elements d)
                = map (\<lambda>(a, b). Line (move_points d ! a) (move_points d ! b) ''black'')
                    (edges (move_objs g))
            \<and> length (filter is_line (elements d))
                = length (move_objs g) * (length (move_objs g) - 1) div 2)
       \<and> set (edges (move_objs g))
           = {(a, b). a < length (move_objs g) \<and> b \<in> set (beats_num (move_objs g ! a))}
       \<and> length (edges (move_objs g)) = length (move_objs g) * (length (move_objs g) - 1) div 2
       \<and> distinct (edges (move_objs g))
       \<and> (i, i) \<notin> set (edges (move_objs g))
       \<and> ((i, j) \<in> set (edges (move_objs g)) \<longleftrightarrow> (j, i) \<notin> set (edges (move_objs g)))"
proof -
  let ?N = "length (move_objs g)"
  let ?objs = "move_objs g"
  let ?pts = "layout ?N"
  let ?cr = "CIRCLE_RADIUS ?N"
  obtain out dia where D: "Diagram_init ?objs = (out, Inr dia)"
    and pts: "move_points dia = ?pts"
    and els: "elements dia =
        [Rect (0, 0) (Px (real_of_int DIAGRAM_SIZE), Px (real_of_int DIAGRAM_SIZE))
           ''10'' ''grey'' ''darkgrey'',
         Circle (Px (real_of_int DIAGRAM_RADIUS), Px (real_of_int DIAGRAM_RADIUS))
           (Px (real_of_int DIAGRAM_RADIUS)) (Px 1) ''grey'' ''darkgrey'']
        @ concat (map (\<lambda>i. map (\<lambda>t. Line (?pts ! i) (?pts ! t) ''black'') (beats_num (?objs ! i))
                             @ [move_circle ?cr (?pts ! i), move_text ?cr (?objs ! i) (?pts ! i)])
                    [0..<?N])"
    using Diagram_init_game[OF assms(1)] by simp
  have lines: "filter is_line (elements dia)
      = map (\<lambda>(a, b). Line (move_points dia ! a) (move_points dia ! b) ''black'') (edges ?objs)"
    unfolding els pts lines_of_edges
    by (simp add: filter_concat o_def)
  have len: "length (edges ?objs) = ?N * (?N - 1) div 2" by (rule length_edges_game[OF assms(1)])
  have count: "length (filter is_line (elements dia)) = ?N * (?N - 1) div 2"
    unfolding lines using len by simp
  have B: "(a, b) \<in> set (edges ?objs) \<longleftrightarrow> b \<in> set (beats_num_list a ?N)" if "a < ?N" for a b
    using that Game_move_fields(2)[OF assms(1) that] by (simp add: set_edges)
  have self: "(i, i) \<notin> set (edges ?objs)"
    using B[OF assms(2)] not_self[OF assms(2)] by simp
  have one: "(i, j) \<in> set (edges ?objs) \<longleftrightarrow> (j, i) \<notin> set (edges ?objs)"
    using one_direction[OF Game_init_Inr(1)[OF assms(1)] assms(2,3,4)] B[OF assms(2)] B[OF assms(3)]
    by simp
  show ?thesis
    using D lines count set_edges[of ?objs] len distinct_edges_game[OF assms(1)] self one
    by blast
qed

text \<open>
  The hypotheses of C8 hold for the classic three moves, whose diagram has the three
  lines of the edges \<open>(0, 1)\<close>, \<open>(1, 2)\<close> and \<open>(2, 0)\<close>.
\<close>

theorem diagram_edges_witness:
  "Game_init classic_rows = Inr classic_game
   \<and> 0 < length (move_objs classic_game) \<and> 1 < length (move_objs classic_game) \<and> (0::nat) \<noteq> 1
   \<and> (\<exists>out d. Diagram_init (move_objs classic_game) = (out, Inr d)
          \<and> length (filter is_line (elements d)) = 3)
   \<and> edges (move_objs classic_game) = [(0, 1), (1, 2), (2, 0)]
   \<and> (0, 1) \<in> set (edges (move_objs classic_game))
   \<and> (1, 0) \<notin> set (edges (move_objs classic_game))"
proof -
  have l0: "0 < length (move_objs classic_game)" and l1: "1 < length (move_objs classic_game)"
    by (simp_all add: classic_game_def)
  have ne: "(0::nat) \<noteq> 1" by simp
  have e: "edges (move_objs classic_game) = [(0, 1), (1, 2), (2, 0)]"
    by (simp add: edges_def classic_game_def upt_rec)
  have n: "length (move_objs classic_game) * (length (move_objs classic_game) - 1) div 2 = 3"
    by (simp add: classic_game_def)
  from diagram_edges[OF Game_init_classic l0 l1 ne]
  have "\<exists>out d. Diagram_init (move_objs classic_game) = (out, Inr d)
          \<and> length (filter is_line (elements d)) = 3"
    unfolding n by blast
  then show ?thesis using Game_init_classic l0 l1 e by simp
qed

section \<open>The labels of the diagram\<close>

lemma scaled_unit:
  fixes H s :: real
  assumes "0 \<le> H" "H \<le> 500" "\<bar>s\<bar> \<le> 1"
  shows "\<bar>H * s\<bar> \<le> 500"
proof -
  have "\<bar>H * s\<bar> = H * \<bar>s\<bar>" using assms(1) by (simp add: abs_mult)
  also have "\<dots> \<le> H * 1" using assms(1,3) by (intro mult_left_mono) simp_all
  finally show ?thesis using assms(2) by simp
qed

lemma point_args_range:
  assumes "0 \<le> cr" "cr \<le> 500"
  shows "0 \<le> fst (point_args cr \<theta>)" "fst (point_args cr \<theta>) \<le> 1000"
proof -
  let ?H = "real_of_int (DIAGRAM_RADIUS - cr)"
  let ?t = "radians (fmod \<theta> (real_of_int EAST))"
  have H: "0 \<le> ?H" "?H \<le> 500" using assms by simp_all
  have s: "\<bar>?H * sin ?t\<bar> \<le> 500" using H by (intro scaled_unit) simp_all
  have c: "\<bar>?H * cos ?t\<bar> \<le> 500" using H by (intro scaled_unit) simp_all
  have r: "0 \<le> real_of_int cr" "real_of_int cr \<le> 500" using assms by simp_all
  show "0 \<le> fst (point_args cr \<theta>)"
    using s c r unfolding point_args_def Let_def
    by (simp add: DIAGRAM_SIZE_def abs_le_iff)
  show "fst (point_args cr \<theta>) \<le> 1000"
    using s c r unfolding point_args_def Let_def
    by (simp add: DIAGRAM_SIZE_def abs_le_iff)
qed

lemma layout_point_fixed:
  assumes "k < n"
  shows "rounded (fl (point_x (layout n ! k))) = point_x (layout n ! k)"
proof -
  have pos: "0 < n" using assms by simp
  have "layout n ! k \<in> set (layout n)" using assms by (intro nth_mem) (simp add: length_layout)
  then obtain \<theta> where p: "layout n ! k = move_point (CIRCLE_RADIUS n) \<theta>" by (auto simp: layout_def)
  have x: "point_x (layout n ! k) = rounded (fst (point_args (CIRCLE_RADIUS n) \<theta>))"
    unfolding p by (simp add: move_point_def Point_init_def split: prod.splits)
  have cr: "0 \<le> CIRCLE_RADIUS n" "CIRCLE_RADIUS n \<le> 500"
    using CIRCLE_RADIUS_bounds[OF pos] by simp_all
  note R = point_args_range[OF cr, of \<theta>]
  have "\<bar>rounded (fst (point_args (CIRCLE_RADIUS n) \<theta>)) - fst (point_args (CIRCLE_RADIUS n) \<theta>)\<bar>
          \<le> 1 / 200"
    by (rule rounded_near)
  then have "\<bar>point_x (layout n ! k)\<bar> \<le> 1001" unfolding x using R by linarith
  moreover have "two_dp (point_x (layout n ! k))" unfolding x by simp
  ultimately show ?thesis by (intro rounded_fl)
qed

lemma move_text_eq:
  assumes "rounded (fl (point_x p)) = point_x p"
  shows "move_text cr obj p =
     Text (move obj)
       (point_x p, rounded (fl (fl (point_y p) + fl (fl (real_of_int cr / 3) / 4))))
       ''middle''
       (Px (rounded (fl (fl (fl (19 / 10) * real_of_int cr)
                         * fl (real (min (py_len (move obj)) 12) / 12)))))
       ''spacingAndGlyphs''"
proof -
  have "(if py_len (move obj) > max_text_len then max_text_len else py_len (move obj))
          = min (py_len (move obj)) 12"
    by (simp add: max_text_len_def min_def)
  then show ?thesis
    using assms
    by (simp add: move_text_def downshifted_def text_length_px_def text_size_def Let_def max_text_len_def)
qed

text \<open>
  Claim C9, as amended. For a catalog that \<open>Game_init\<close> accepts, the diagram has one text
  element per move. The text of move \<open>i\<close> is the move's name. Its \<^verbatim>\<open>textLength\<close> is the
  product \<open>1.9 * r * (min (len name) 12 / 12)\<close> as the program computes it, every operation
  rounded to a double, and then rounded to two decimal places, with \<open>r = CIRCLE_RADIUS N\<close>.
  Its insertion point has the x coordinate of the move's point, and as y coordinate the
  double sum of the point's y and \<open>(r / 3) / 4\<close>, rounded to two decimal places.
\<close>

theorem move_labels:
  assumes "Game_init rows = Inr g" and "i < length (move_objs g)"
  shows "\<exists>out d. Diagram_init (move_objs g) = (out, Inr d)
     \<and> length (filter is_text (elements d)) = length (move_objs g)
     \<and> filter is_text (elements d) ! i =
         Text (move (move_objs g ! i))
           (point_x (move_points d ! i),
            rounded (fl (fl (point_y (move_points d ! i))
                         + fl (fl (real_of_int (CIRCLE_RADIUS (length (move_objs g))) / 3) / 4))))
           ''middle''
           (Px (rounded (fl (fl (fl (19 / 10) * real_of_int (CIRCLE_RADIUS (length (move_objs g))))
                             * fl (real (min (py_len (move (move_objs g ! i))) 12) / 12)))))
           ''spacingAndGlyphs''"
proof -
  let ?N = "length (move_objs g)"
  let ?objs = "move_objs g"
  let ?pts = "layout ?N"
  let ?cr = "CIRCLE_RADIUS ?N"
  obtain out dia where D: "Diagram_init ?objs = (out, Inr dia)"
    and pts: "move_points dia = ?pts"
    and els: "elements dia =
        [Rect (0, 0) (Px (real_of_int DIAGRAM_SIZE), Px (real_of_int DIAGRAM_SIZE))
           ''10'' ''grey'' ''darkgrey'',
         Circle (Px (real_of_int DIAGRAM_RADIUS), Px (real_of_int DIAGRAM_RADIUS))
           (Px (real_of_int DIAGRAM_RADIUS)) (Px 1) ''grey'' ''darkgrey'']
        @ concat (map (\<lambda>i. map (\<lambda>t. Line (?pts ! i) (?pts ! t) ''black'') (beats_num (?objs ! i))
                             @ [move_circle ?cr (?pts ! i), move_text ?cr (?objs ! i) (?pts ! i)])
                    [0..<?N])"
    using Diagram_init_game[OF assms(1)] by simp
  have texts: "filter is_text (elements dia)
                 = map (\<lambda>i. move_text ?cr (?objs ! i) (?pts ! i)) [0..<?N]"
    unfolding els by (simp add: filter_concat o_def concat_map_singleton)
  have len: "length (filter is_text (elements dia)) = ?N" unfolding texts by simp
  have "filter is_text (elements dia) ! i = move_text ?cr (?objs ! i) (?pts ! i)"
    unfolding texts using assms(2) by simp
  also have "\<dots> = Text (move (?objs ! i))
           (point_x (?pts ! i),
            rounded (fl (fl (point_y (?pts ! i)) + fl (fl (real_of_int ?cr / 3) / 4))))
           ''middle''
           (Px (rounded (fl (fl (fl (19 / 10) * real_of_int ?cr)
                             * fl (real (min (py_len (move (?objs ! i))) 12) / 12)))))
           ''spacingAndGlyphs''"
    by (rule move_text_eq[OF layout_point_fixed[OF assms(2)]])
  finally have nth: "filter is_text (elements dia) ! i = Text (move (?objs ! i))
           (point_x (move_points dia ! i),
            rounded (fl (fl (point_y (move_points dia ! i)) + fl (fl (real_of_int ?cr / 3) / 4))))
           ''middle''
           (Px (rounded (fl (fl (fl (19 / 10) * real_of_int ?cr)
                             * fl (real (min (py_len (move (?objs ! i))) 12) / 12)))))
           ''spacingAndGlyphs''"
    unfolding pts .
  show ?thesis using D len nth by blast
qed

lemma layout_3_north: "layout 3 ! 2 = \<lparr> point_x = 500, point_y = 167 \<rparr>"
proof -
  have "layout 3 ! 2 = move_point (CIRCLE_RADIUS 3) (angles 3 ! 2)" by (rule layout_nth) simp
  also have "\<dots> = move_point 167 360" by (simp add: angles_3 CIRCLE_RADIUS_3)
  finally show ?thesis by (simp add: move_point_cardinal)
qed

lemma py_len_samples: "py_len ''Rock'' = 4" "py_len ''Axe'' = 3"
  by code_simp+

lemma rounded_samples:
  "rounded (7442667509190929 / 70368744177664) = 10577 / 100"
  "rounded (5582000631893197 / 70368744177664) = 7933 / 100"
  "rounded (6365439317071189 / 35184372088832) = 4523 / 25"
  "rounded 500 = 500"
  by code_simp+

lemma rock_width: "text_length_px 167 ''Rock'' = 10577 / 100"
  unfolding text_length_px_def Let_def py_len_samples max_text_len_def
  by (simp add: fl_19_10 fl_19_167 fl_4_12 fl_width_4 rounded_samples)

lemma rock_shift: "downshifted 167 \<lparr> point_x = 500, point_y = 167 \<rparr> = (500, 4523 / 25)"
  unfolding downshifted_def text_size_def
  by (simp add: fl_500 fl_167 fl_167_3 fl_ts_4 fl_shift rounded_samples)

text \<open>
  Where the exact product is a tie between two hundredths, the doubles decide: for a
  three-letter name and \<open>r = 167\<close> the exact product is 79.325, the double product lies
  just above it, and the width is 79.33.
\<close>

lemma axe_width: "text_length_px 167 ''Axe'' = 7933 / 100"
  unfolding text_length_px_def Let_def py_len_samples max_text_len_def
  by (simp add: fl_19_10 fl_19_167 fl_3_12 fl_width_3 rounded_samples)

text \<open>
  The hypotheses of C9 hold for the classic three moves; the third text is that of Rock.
\<close>

theorem move_labels_witness:
  "Game_init classic_rows = Inr classic_game \<and> 2 < length (move_objs classic_game)
   \<and> (\<exists>out d. Diagram_init (move_objs classic_game) = (out, Inr d)
         \<and> length (filter is_text (elements d)) = 3
         \<and> (\<exists>ins len. filter is_text (elements d) ! 2 = Text ''Rock'' ins ''middle'' len ''spacingAndGlyphs''))"
proof -
  have l: "2 < length (move_objs classic_game)" by (simp add: classic_game_def)
  have n: "length (move_objs classic_game) = 3" "move (move_objs classic_game ! 2) = ''Rock''"
    by (simp_all add: classic_game_def)
  from move_labels[OF Game_init_classic l]
  obtain out d where "Diagram_init (move_objs classic_game) = (out, Inr d)"
    "length (filter is_text (elements d)) = 3"
    "\<exists>ins len. filter is_text (elements d) ! 2 = Text ''Rock'' ins ''middle'' len ''spacingAndGlyphs''"
    unfolding n by blast
  then show ?thesis using Game_init_classic l by blast
qed

text \<open>
  Claim C9 as stated fails, by the rounding: for Rock in the classic game (\<open>r = 167\<close>, point
  \<open>(500, 167)\<close>) the width is 105.77 and not \<open>4 / 12 * 1.9 * 167\<close>, and the label sits 13.92
  below the point's centre and not \<open>(167 / 3) / 4\<close>.
\<close>

theorem label_is_rounded:
  "move_text (CIRCLE_RADIUS 3) (move_objs classic_game ! 2) (layout 3 ! 2)
     = Text ''Rock'' (500, 4523 / 25) ''middle'' (Px (10577 / 100)) ''spacingAndGlyphs''
   \<and> (10577 / 100 :: real)
       \<noteq> real (min (py_len ''Rock'') 12) / 12 * 1.9 * real_of_int (CIRCLE_RADIUS 3)
   \<and> (4523 / 25 :: real) - point_y (layout 3 ! 2) \<noteq> real_of_int (CIRCLE_RADIUS 3) / 3 / 4"
proof -
  have m: "move (move_objs classic_game ! 2) = ''Rock''" by (simp add: classic_game_def)
  have a: "move_text (CIRCLE_RADIUS 3) (move_objs classic_game ! 2) (layout 3 ! 2)
     = Text ''Rock'' (500, 4523 / 25) ''middle'' (Px (10577 / 100)) ''spacingAndGlyphs''"
    unfolding move_text_def m layout_3_north CIRCLE_RADIUS_3 rock_width rock_shift ..
  have b: "(10577 / 100 :: real)
       \<noteq> real (min (py_len ''Rock'') 12) / 12 * 1.9 * real_of_int (CIRCLE_RADIUS 3)"
    by (simp add: CIRCLE_RADIUS_3 py_len_samples)
  have c: "(4523 / 25 :: real) - point_y (layout 3 ! 2) \<noteq> real_of_int (CIRCLE_RADIUS 3) / 3 / 4"
    by (simp add: CIRCLE_RADIUS_3 layout_3_north)
  show ?thesis using a b c by blast
qed

section \<open>The consistency check\<close>


lemma snd_wrap:
  "snd dm = Inl e \<Longrightarrow>
     snd (case dm of (out', Inl e) \<Rightarrow> (out', Inl e) | (out', Inr els) \<Rightarrow> (out', Inr (f els))) = Inl e"
  by (cases dm; cases "snd dm") auto


lemma snd_draw_diagram_error:
  assumes "snd (draw_moves objs pts cr (zip [0..<length pts] pts) (too_many_circles objs pts)
       [Rect (0, 0) (Px (real_of_int DIAGRAM_SIZE), Px (real_of_int DIAGRAM_SIZE))
          ''10'' ''grey'' ''darkgrey'',
        Circle (Px (real_of_int DIAGRAM_RADIUS), Px (real_of_int DIAGRAM_RADIUS))
          (Px (real_of_int DIAGRAM_RADIUS)) (Px 1) ''grey'' ''darkgrey'']) = Inl e"
  shows "snd (draw_diagram objs pts cr) = Inl e"
  unfolding draw_diagram_def Let_def using assms by (rule snd_wrap)


text \<open>
  What follows the message in that case: the loop reaches a point without a move, and
  \<^verbatim>\<open>move_objs[i]\<close> raises.
\<close>

lemma draw_diagram_overrun:
  assumes "length objs < length pts"
  shows "\<exists>e. snd (draw_diagram objs pts cr) = Inl e"
proof -
  have "(length objs, pts ! length objs) \<in> set (zip [0..<length pts] pts)"
    unfolding zip_upt_nth using assms by simp
  then have "\<exists>(i, p) \<in> set (zip [0..<length pts] pts). length objs \<le> i" by force
  from draw_moves_overrun[OF this] snd_draw_diagram_error show ?thesis by blast
qed



section \<open>The layout of the classic game\<close>

lemma py_round_between:
  assumes "real_of_int k - 1 / 2 < v" and "v < real_of_int k + 1 / 2"
  shows "py_round v = k"
proof (cases "real_of_int k \<le> v")
  case True
  then have "\<lfloor>v\<rfloor> = k" using assms by (intro floor_unique) simp_all
  then show ?thesis using assms by (simp add: py_round_def Let_def)
next
  case False
  then have "\<lfloor>v\<rfloor> = k - 1" using assms by (intro floor_unique) simp_all
  then show ?thesis using assms False by (simp add: py_round_def Let_def)
qed

lemma sqrt3_bounds: "173205 / 100000 < sqrt 3" "sqrt 3 < 173206 / 100000"
proof -
  show "173205 / 100000 < sqrt 3" by (rule real_less_rsqrt) (simp add: power2_eq_square)
  show "sqrt 3 < 173206 / 100000" by (rule real_less_lsqrt) (simp_all add: power2_eq_square)
qed

lemma rounded_plus_sqrt3: "rounded (500 + 333 * (sqrt 3 / 2)) = 78839 / 100"
proof -
  have "py_round ((500 + 333 * (sqrt 3 / 2)) * 100) = 78839"
    using sqrt3_bounds by (intro py_round_between) simp_all
  then show ?thesis by (simp add: rounded_def)
qed

lemma rounded_minus_sqrt3: "rounded (500 - 333 * (sqrt 3 / 2)) = 21161 / 100"
proof -
  have "py_round ((500 - 333 * (sqrt 3 / 2)) * 100) = 21161"
    using sqrt3_bounds by (intro py_round_between) simp_all
  then show ?thesis by (simp add: rounded_def)
qed

lemma rounded_6665: "rounded (500 + 333 * (1 / 2)) = 1333 / 2"
  by code_simp

lemma radians_30_60: "radians 30 = pi / 6" "radians 60 = pi / 3"
  by (simp_all add: radians_def)

lemma fmod_240: "fmod 240 360 = 240" "fmod 240 90 = 60"
  by (simp_all add: fmod_def)

lemma point_args_120:
  "point_args 167 120 = (500 + 333 * (sqrt 3 / 2), 500 + 333 * (1 / 2))"
proof -
  have h: "fmod 120 360 \<notin> {0, 90, 180, 270}" by (simp add: fmod_120)
  show ?thesis
    unfolding point_args_trig[OF h] Let_def fmod_120 radians_30_60 sin_30 cos_30 by simp
qed

lemma point_args_240:
  "point_args 167 240 = (500 - 333 * (sqrt 3 / 2), 500 + 333 * (1 / 2))"
proof -
  have h: "fmod 240 360 \<notin> {0, 90, 180, 270}" by (simp add: fmod_240)
  show ?thesis
    unfolding point_args_trig[OF h] Let_def fmod_240 radians_30_60 sin_60 cos_60 by simp
qed

text \<open>
  Claim C4 does not hold of the code. For the three classic moves the angles are 120, 240
  and 360: the point at index 0 is at 120 degrees (lower right), and the point at north,
  \<open>(500, 167)\<close>, is the last one, at index 2.
\<close>

theorem layout_classic:
  "angles 3 = [120, 240, 360]
   \<and> layout 3 = [\<lparr> point_x = 78839 / 100, point_y = 1333 / 2 \<rparr>,
                  \<lparr> point_x = 21161 / 100, point_y = 1333 / 2 \<rparr>,
                  \<lparr> point_x = 500, point_y = 167 \<rparr>]"
proof -
  have "layout 3 = [move_point 167 120, move_point 167 240, move_point 167 360]"
    by (simp add: layout_def angles_3 CIRCLE_RADIUS_3)
  moreover have "move_point 167 120 = \<lparr> point_x = 78839 / 100, point_y = 1333 / 2 \<rparr>"
    unfolding move_point_def point_args_120 prod.case Point_init_def
      rounded_plus_sqrt3 rounded_6665 ..
  moreover have "move_point 167 240 = \<lparr> point_x = 21161 / 100, point_y = 1333 / 2 \<rparr>"
    unfolding move_point_def point_args_240 prod.case Point_init_def
      rounded_minus_sqrt3 rounded_6665 ..
  moreover have "move_point 167 360 = \<lparr> point_x = 500, point_y = 167 \<rparr>"
    by (simp add: move_point_cardinal)
  ultimately show ?thesis using angles_3 by simp
qed

section \<open>The last angle in double precision\<close>

lemma CIRCLE_RADIUS_55: "CIRCLE_RADIUS 55 = 9"
  by code_simp

lemma npts_55: "py_round (7599824371187711 / 140737488355328) = 54"
  by code_simp

lemma angles64_55:
  "length (angles64 55) = 55"
  "angles64 55 ! 54 = 6333186975989761 / 17592186044416"
proof -
  have a: "angles64 55 =
      map (\<lambda>k. fl (fl (real k * (7369526662969903 / 1125899906842624))
                    + 7369526662969903 / 1125899906842624)) [0..<55]"
    unfolding angles64_def frange64_def Let_def FULL_CIRCLE_def
    by (simp add: fl_slice_55 fl_span_55 fl_quot_55 npts_55)
  show "length (angles64 55) = 55" unfolding a by simp
  have "angles64 55 ! 54 = fl (fl (real (54::nat) * (7369526662969903 / 1125899906842624))
                    + 7369526662969903 / 1125899906842624)"
    unfolding a by (subst nth_map) simp_all
  also have "\<dots> = 6333186975989761 / 17592186044416"
    by (simp add: fl_prod_55 fl_sum_55)
  finally show "angles64 55 ! 54 = 6333186975989761 / 17592186044416" .
qed

lemma drifted_remainders:
  "fmod (6333186975989761 / 17592186044416) 360 = 1 / 17592186044416"
  "fmod (6333186975989761 / 17592186044416) 90 = 1 / 17592186044416"
  by code_simp+

lemma tiny_angle:
  defines "t \<equiv> radians (1 / 17592186044416)"
  shows "0 \<le> t" "t \<le> 1 / 100000000000000" "t \<le> pi"
proof -
  have p: "0 < pi" "pi < 4" using pi_gt_zero pi_less_4 by simp_all
  show "0 \<le> t" unfolding t_def radians_def using p by simp
  have e: "t = pi / 3166593487994880" unfolding t_def radians_def by simp
  show "t \<le> 1 / 100000000000000" unfolding e using p by simp
  have "pi / 3166593487994880 \<le> pi / 1" using p by (intro divide_left_mono) simp_all
  then show "t \<le> pi" unfolding e by simp
qed

lemma one_minus_cos: "0 \<le> 1 - cos (t::real)" "1 - cos t \<le> t\<^sup>2 / 2"
proof -
  show "0 \<le> 1 - cos t" by simp
  have "cos t = cos (2 * (t / 2))" by simp
  also have "\<dots> = 1 - 2 * (sin (t / 2))\<^sup>2" by (rule cos_double_sin)
  finally have "1 - cos t = 2 * (sin (t / 2))\<^sup>2" by simp
  moreover have "(sin (t / 2))\<^sup>2 \<le> (t / 2)\<^sup>2"
    using abs_sin_x_le_abs_x[of "t / 2"] by (simp only: abs_le_square_iff)
  ultimately show "1 - cos t \<le> t\<^sup>2 / 2" by (simp add: power2_eq_square)
qed

lemma west_instead_of_north:
  "move_point 9 (6333186975989761 / 17592186044416) = \<lparr> point_x = 9, point_y = 500 \<rparr>"
proof -
  define t where "t = radians (1 / 17592186044416)"
  note T = tiny_angle[folded t_def]
  have h: "fmod (6333186975989761 / 17592186044416) 360 \<notin> {0, 90, 180, 270}"
    unfolding drifted_remainders by simp
  have args: "point_args 9 (6333186975989761 / 17592186044416)
                = (500 - 491 * cos t, 500 - 491 * sin t)"
    unfolding point_args_trig[OF h] Let_def drifted_remainders t_def by simp
  have s0: "0 \<le> sin t" using T by (intro sin_ge_zero)
  have s1: "sin t \<le> t" using T by (intro sin_x_le_x)
  have c0: "0 \<le> 1 - cos t" and c1: "1 - cos t \<le> t\<^sup>2 / 2" by (rule one_minus_cos)+
  have tt: "t\<^sup>2 \<le> t" using T(1,2) by (simp add: power2_eq_square mult_left_le)
  have "\<bar>(500 - 491 * cos t) * 100 - real_of_int 900\<bar> < 1 / 2" using c0 c1 tt T(2) by simp
  then have x: "rounded (500 - 491 * cos t) = 9"
    unfolding rounded_def by (subst py_round_within[of _ 900]) simp_all
  have "\<bar>(500 - 491 * sin t) * 100 - real_of_int 50000\<bar> < 1 / 2" using s0 s1 T(2) by simp
  then have y: "rounded (500 - 491 * sin t) = 500"
    unfolding rounded_def by (subst py_round_within[of _ 50000]) simp_all
  show ?thesis unfolding move_point_def args prod.case Point_init_def x y ..
qed

text \<open>
  Claim C5 does not hold of the code. With 55 moves there are 55 angles, and the last one,
  \<open>fl (fl (54 * a) + a)\<close> for \<open>a = fl (360 / 55)\<close>, is the next double after 360. The test
  \<^verbatim>\<open>angle == FULL_CIRCLE\<close> fails, the branch of the last quadrant is taken with the reduced
  angle \<open>1 / 2 ^ 44\<close>, and the point is drawn at west, \<open>(9, 500)\<close>, where the exact branch
  gives north, \<open>(500, 9)\<close>. Sine and cosine are those of the real numbers here.
\<close>

theorem last_point_drifts:
  "length (angles64 55) = 55
   \<and> angles64 55 ! 54 = 360 + 1 / 2 ^ 44
   \<and> angles64 55 ! 54 \<noteq> 360
   \<and> layout64 55 ! 54 = \<lparr> point_x = 9, point_y = 500 \<rparr>
   \<and> move_point (CIRCLE_RADIUS 55) 360 = \<lparr> point_x = 500, point_y = 9 \<rparr>"
proof -
  have a: "angles64 55 ! 54 = 360 + 1 / 2 ^ 44" unfolding angles64_55 by simp
  have b: "angles64 55 ! 54 \<noteq> 360" unfolding angles64_55 by simp
  have "layout64 55 ! 54 = move_point (CIRCLE_RADIUS 55) (angles64 55 ! 54)"
    unfolding layout64_def by (subst nth_map) (simp_all add: angles64_55)
  then have c: "layout64 55 ! 54 = \<lparr> point_x = 9, point_y = 500 \<rparr>"
    unfolding CIRCLE_RADIUS_55 angles64_55 west_instead_of_north .
  have d: "move_point (CIRCLE_RADIUS 55) 360 = \<lparr> point_x = 500, point_y = 9 \<rparr>"
    unfolding CIRCLE_RADIUS_55 by (simp add: move_point_cardinal)
  show ?thesis using angles64_55(1) a b c d by blast
qed

end
